theory Spec2Isabelle
  imports Complex_Main "HOL-Library.Char_ord" "HOL-Library.List_Lexorder" "HOL-Library.Option_ord"
begin

section \<open>Heartbeat monitor: data model\<close>

text \<open>
  The development embeds \<^verbatim>\<open>src/main.py\<close> (class \<^verbatim>\<open>HeartbeatMonitor\<close>).

  Conventions of the embedding:
  \<^item> A Python value that can occur in the decoded JSON input is a \<open>pyval\<close>; a JSON object is
    an association list with text keys (\<open>map_of\<close> is the lookup). Floats are left out: in
    every branch of the code they behave as \<open>PInt\<close> does (neither a dict nor a str).
  \<^item> A Python \<^verbatim>\<open>str\<close> is a \<open>string\<close>; its characters are code points below 256.
  \<^item> A timezone-aware \<^verbatim>\<open>datetime\<close> normalised to UTC is an \<open>instant\<close>: the number of
    microseconds since the epoch. A \<^verbatim>\<open>timedelta\<close> is a number of microseconds. The
    library keeps a datetime between \<^verbatim>\<open>datetime.min\<close> and \<^verbatim>\<open>datetime.max\<close>: adding a
    timedelta to a datetime raises \<^verbatim>\<open>OverflowError\<close> outside this range, and
    \<open>datetime_add\<close> does so. The range of \<^verbatim>\<open>timedelta\<close> itself (a billion days) is not
    modelled: no interval of a constructed monitor and no difference of two datetimes
    reaches it.
  \<^item> A Python float is an IEEE 754 double. Its value is a rational number, and the
    model keeps that value; every operation of the code that rounds (\<^verbatim>\<open>total_seconds()\<close>,
    which divides two integers, and the product \<^verbatim>\<open>interval_seconds * tolerance\<close>) rounds
    with \<open>round_double\<close>, round-to-nearest-even on 53 significant bits. Comparisons of
    floats, and of a float with an int, are exact in Python and in the model. Magnitudes
    beyond the exponent range of a double do not occur: the code rounds multiples of a
    microsecond below the span of the datetime range, and products of an interval of at
    most 3600 with a tolerance between 0 and 1.
  \<^item> The library function \<^verbatim>\<open>datetime.fromisoformat\<close> is a parameter \<open>P\<close> of the model
    (\<open>None\<close> stands for its \<^verbatim>\<open>ValueError\<close>), and \<^verbatim>\<open>strftime\<close> with the format of the
    code is a parameter \<open>F\<close>. \<open>P\<close> is taken to return datetimes whose UTC instant is a
    datetime again, so that \<^verbatim>\<open>astimezone\<close> returns; and the clock is taken to be at least
    24 hours before \<^verbatim>\<open>datetime.max\<close> where \<open>validate_event\<close> adds 24 hours to it.
  \<^item> \<^verbatim>\<open>datetime.now(timezone.utc)\<close> is the parameter \<open>now\<close>: one call of a method is taken
    as instantaneous, every read of the clock inside it returns the same instant.
  \<^item> Printing to \<^verbatim>\<open>sys.stderr\<close> is not modelled.
\<close>

datatype pyval =
    PNone
  | PBool bool
  | PInt int
  | PStr string
  | PList "pyval list"
  | PDict "(string \<times> pyval) list"

datatype error =
    ValueError string
  | KeyError
  | TypeError
  | IndexError
  | OverflowError

type_synonym instant = int

text \<open>What \<^verbatim>\<open>datetime.fromisoformat\<close> returns: a naive datetime (its wall-clock fields,
  counted in microseconds as if they were UTC), or an aware one (the same, with its UTC
  offset in microseconds).\<close>

datatype pydatetime = Naive int | Aware int int

type_synonym fromisoformat = "string \<Rightarrow> pydatetime option"

type_synonym strftime = "instant \<Rightarrow> string"

record monitor =
  interval_seconds :: int
  allowed_misses :: int
  tolerance :: rat
  future_limit :: int
  gap_limit :: int
  tolerance_seconds :: rat

subsection \<open>Floats\<close>

text \<open>\<open>expo x\<close> is the binary exponent of a positive rational: \<open>2 ^ expo x \<le> x < 2 ^ (expo x + 1)\<close>.
  \<open>round_double\<close> scales the magnitude to an integer of 53 bits, rounds it to the nearest
  integer with ties to the even one, and scales back.\<close>

function expo :: "rat \<Rightarrow> int" where
  "expo x = (if x \<le> 0 then 0
             else if 2 \<le> x then expo (x / 2) + 1
             else if x < 1 then expo (x * 2) - 1
             else 0)"
  by pat_completeness auto
termination
proof (relation "measure (\<lambda>x. if 1 \<le> x then nat \<lfloor>x\<rfloor> else nat \<lceil>1 / x\<rceil>)")
  show "wf (measure (\<lambda>x::rat. if 1 \<le> x then nat \<lfloor>x\<rfloor> else nat \<lceil>1 / x\<rceil>))" by simp
next
  fix x :: rat assume "\<not> x \<le> 0" "2 \<le> x"
  then have "of_int \<lfloor>x / 2\<rfloor> \<le> x / 2" "x / 2 \<le> x - 1" "x - 1 < of_int \<lfloor>x\<rfloor>"
    by (simp_all add: field_simps) linarith+
  then have "(of_int \<lfloor>x / 2\<rfloor> :: rat) < of_int \<lfloor>x\<rfloor>" by linarith
  then have "\<lfloor>x / 2\<rfloor> < \<lfloor>x\<rfloor>" by (simp only: of_int_less_iff)
  moreover have "0 < \<lfloor>x\<rfloor>" using \<open>2 \<le> x\<close> by simp
  ultimately show "(x / 2, x) \<in> measure (\<lambda>x. if 1 \<le> x then nat \<lfloor>x\<rfloor> else nat \<lceil>1 / x\<rceil>)"
    using \<open>2 \<le> x\<close> by simp
next
  fix x :: rat assume x: "\<not> x \<le> 0" "\<not> 2 \<le> x" "x < 1"
  then have a: "1 < 1 / x" by simp
  show "(x * 2, x) \<in> measure (\<lambda>x. if 1 \<le> x then nat \<lfloor>x\<rfloor> else nat \<lceil>1 / x\<rceil>)"
  proof (cases "1 \<le> x * 2")
    case True
    have "\<lfloor>x * 2\<rfloor> = 1" using True x by (intro floor_unique) simp_all
    moreover have "2 \<le> \<lceil>1 / x\<rceil>" using a by linarith
    ultimately show ?thesis using True x by simp
  next
    case False
    then have "2 \<le> 1 / x" using x by (simp add: field_simps)
    then have "of_int \<lceil>1 / (x * 2)\<rceil> < 1 / (x * 2) + 1" "1 / (x * 2) + 1 \<le> 1 / x"
      "1 / x \<le> of_int \<lceil>1 / x\<rceil>"
      by (simp_all add: field_simps) linarith+
    then have "(of_int \<lceil>1 / (x * 2)\<rceil> :: rat) < of_int \<lceil>1 / x\<rceil>" by linarith
    then have "\<lceil>1 / (x * 2)\<rceil> < \<lceil>1 / x\<rceil>" by (simp only: of_int_less_iff)
    moreover have "0 < \<lceil>1 / x\<rceil>" using a by linarith
    ultimately show ?thesis using False x by simp
  qed
qed

declare expo.simps [simp del]

definition round_half_even :: "rat \<Rightarrow> int" where
  "round_half_even x =
     (let f = \<lfloor>x\<rfloor>; r = x - of_int f
      in if r < 1 / 2 then f else if 1 / 2 < r then f + 1 else if even f then f else f + 1)"

definition round_pos :: "rat \<Rightarrow> rat" where
  "round_pos x =
     (if x \<le> 0 then 0
      else of_int (round_half_even (x * 2 powi (52 - expo x))) * 2 powi (expo x - 52))"

definition round_double :: "rat \<Rightarrow> rat" where
  "round_double x = (if x < 0 then - round_pos (- x) else round_pos x)"

subsection \<open>Construction\<close>

text \<open>\<open>tolerance'\<close> is the value of the float that the caller passes. The integer
  \<^verbatim>\<open>interval_seconds\<close>, at most 3600 where the product is computed, converts to a float
  without rounding; the product is rounded.\<close>

definition init :: "int \<Rightarrow> int \<Rightarrow> rat \<Rightarrow> int \<Rightarrow> int \<Rightarrow> error + monitor" where
  "init interval_seconds' allowed_misses' tolerance' future_limit' gap_limit' =
    (if interval_seconds' \<le> 0 then Inl (ValueError ''interval_seconds must be positive'')
     else if interval_seconds' > 3600
       then Inl (ValueError ''interval_seconds cannot exceed 3600 seconds'')
     else if allowed_misses' \<le> 0 then Inl (ValueError ''allowed_misses must be positive'')
     else if allowed_misses' > 10 then Inl (ValueError ''allowed_misses cannot exceed 10'')
     else if \<not> (0 \<le> tolerance' \<and> tolerance' \<le> 1)
       then Inl (ValueError ''tolerance must be between 0.0 and 1.0'')
     else if future_limit' < 0 then Inl (ValueError ''future_limit must be non-negative'')
     else if gap_limit' \<le> 0 then Inl (ValueError ''gap_limit must be positive'')
     else Inr \<lparr> interval_seconds = interval_seconds',
                allowed_misses = allowed_misses',
                tolerance = tolerance',
                future_limit = future_limit',
                gap_limit = gap_limit',
                tolerance_seconds = round_double (of_int interval_seconds' * tolerance') \<rparr>)"

text \<open>The ranges of the configuration fields, as the constructor enforces them.\<close>

definition valid_config :: "monitor \<Rightarrow> bool" where
  "valid_config self \<longleftrightarrow>
     1 \<le> interval_seconds self \<and> interval_seconds self \<le> 3600 \<and>
     1 \<le> allowed_misses self \<and> allowed_misses self \<le> 10 \<and>
     0 \<le> tolerance self \<and> tolerance self \<le> 1 \<and>
     0 \<le> future_limit self \<and>
     1 \<le> gap_limit self \<and>
     tolerance_seconds self = round_double (of_int (interval_seconds self) * tolerance self)"

subsection \<open>Time arithmetic\<close>

definition timedelta_seconds :: "int \<Rightarrow> int" where
  "timedelta_seconds n = n * 1000000"

definition timedelta_hours :: "int \<Rightarrow> int" where
  "timedelta_hours n = n * 3600000000"

text \<open>\<^verbatim>\<open>timedelta.total_seconds()\<close> divides the microseconds by \<^verbatim>\<open>10**6\<close>; the true division
  of two Python integers is correctly rounded.\<close>

definition total_seconds :: "int \<Rightarrow> rat" where
  "total_seconds d = round_double (of_int d / 1000000)"

text \<open>\<^verbatim>\<open>datetime.min\<close> is 0001-01-01T00:00:00 and \<^verbatim>\<open>datetime.max\<close> is
  9999-12-31T23:59:59.999999; \<open>datetime_add\<close> is \<^verbatim>\<open>datetime + timedelta\<close>.\<close>

definition datetime_min :: instant where
  "datetime_min = - 62135596800000000"

definition datetime_max :: instant where
  "datetime_max = 253402300799999999"

definition datetime_add :: "instant \<Rightarrow> int \<Rightarrow> error + instant" where
  "datetime_add t d =
     (if datetime_min \<le> t + d \<and> t + d \<le> datetime_max then Inr (t + d)
      else Inl OverflowError)"


subsection \<open>Strings\<close>

text \<open>\<^verbatim>\<open>str.isspace\<close> on the code points below 256, and \<^verbatim>\<open>str.strip()\<close>.\<close>

definition py_isspace :: "char \<Rightarrow> bool" where
  "py_isspace c \<longleftrightarrow>
     (let n = (of_char c :: nat) in (9 \<le> n \<and> n \<le> 13) \<or> (28 \<le> n \<and> n \<le> 32) \<or> n = 133 \<or> n = 160)"

definition py_strip :: "string \<Rightarrow> string" where
  "py_strip s = rev (dropWhile py_isspace (rev (dropWhile py_isspace s)))"

definition is_digit :: "char \<Rightarrow> bool" where
  "is_digit c \<longleftrightarrow> c \<in> set ''0123456789''"

text \<open>The two regular expressions of \<^verbatim>\<open>parse_timestamp\<close>. \<open>match_datetime\<close> consumes
  \<^verbatim>\<open>\d{4}-\d{2}-\d{2}T\d{2}:\d{2}:\d{2}\<close>, \<open>match_fraction\<close> the optional group
  \<^verbatim>\<open>(\.\d+)?\<close>, \<open>match_offset\<close> decides \<^verbatim>\<open>[+-]\d{2}:\d{2}$\<close>.\<close>

datatype pat = Digit | Lit char

fun match_pats :: "pat list \<Rightarrow> string \<Rightarrow> string option" where
  "match_pats [] s = Some s"
| "match_pats (p # ps) [] = None"
| "match_pats (Digit # ps) (c # s) = (if is_digit c then match_pats ps s else None)"
| "match_pats (Lit l # ps) (c # s) = (if c = l then match_pats ps s else None)"

definition match_datetime :: "string \<Rightarrow> string option" where
  "match_datetime s =
     match_pats [Digit, Digit, Digit, Digit, Lit CHR ''-'', Digit, Digit, Lit CHR ''-'',
                 Digit, Digit, Lit CHR ''T'', Digit, Digit, Lit CHR '':'', Digit, Digit,
                 Lit CHR '':'', Digit, Digit] s"

fun match_fraction :: "string \<Rightarrow> string" where
  "match_fraction (c # d # s) =
     (if c = CHR ''.'' \<and> is_digit d then dropWhile is_digit s else c # d # s)"
| "match_fraction s = s"

fun match_offset :: "string \<Rightarrow> bool" where
  "match_offset (c # s) =
     ((c = CHR ''+'' \<or> c = CHR ''-'') \<and>
      match_pats [Digit, Digit, Lit CHR '':'', Digit, Digit] s = Some [])"
| "match_offset [] = False"

definition matches_offset_form :: "string \<Rightarrow> bool" where
  "matches_offset_form s =
     (case match_datetime s of None \<Rightarrow> False | Some r \<Rightarrow> match_offset (match_fraction r))"

definition matches_naive_form :: "string \<Rightarrow> bool" where
  "matches_naive_form s =
     (case match_datetime s of None \<Rightarrow> False | Some r \<Rightarrow> match_fraction r = [])"

subsection \<open>Timestamps\<close>

text \<open>\<^verbatim>\<open>dt.replace(tzinfo=timezone.utc)\<close> for a naive datetime,
  \<^verbatim>\<open>dt.astimezone(timezone.utc)\<close> for an aware one.\<close>

fun to_utc :: "pydatetime \<Rightarrow> instant" where
  "to_utc (Naive w) = w"
| "to_utc (Aware w off) = w - off"

definition parse_timestamp :: "monitor \<Rightarrow> fromisoformat \<Rightarrow> pyval \<Rightarrow> instant option" where
  "parse_timestamp self P timestamp_str =
     (case timestamp_str of
        PStr raw \<Rightarrow>
          (let s = py_strip raw in
           if s = [] then None
           else
             (case (if last s = CHR ''Z'' then P (butlast s @ ''+00:00'')
                    else if matches_offset_form s then P s
                    else if matches_naive_form s then P (s @ ''+00:00'')
                    else P s) of
                None \<Rightarrow> None
              | Some dt \<Rightarrow> Some (to_utc dt)))
      | _ \<Rightarrow> None)"

subsection \<open>Validation of one record\<close>

definition validate_event :: "monitor \<Rightarrow> fromisoformat \<Rightarrow> instant \<Rightarrow> pyval \<Rightarrow> bool" where
  "validate_event self P now event =
     (case event of
        PDict kvs \<Rightarrow>
          (case map_of kvs ''service'' of
             None \<Rightarrow> False
           | Some service \<Rightarrow>
               (case map_of kvs ''timestamp'' of
                  None \<Rightarrow> False
                | Some ts \<Rightarrow>
                    (case service of
                       PStr sv \<Rightarrow>
                         if py_strip sv = [] then False
                         else if length (py_strip sv) > 100 then False
                         else
                           (case parse_timestamp self P ts of
                              None \<Rightarrow> False
                            | Some timestamp \<Rightarrow>
                                (let max_future = now + timedelta_hours 24 in
                                 if timestamp > max_future then False else True))
                     | _ \<Rightarrow> False)))
      | _ \<Rightarrow> False)"


subsection \<open>Grouping by service\<close>

text \<open>The two field reads of \<^verbatim>\<open>sort_events_by_service\<close>. Both run only on a record that
  \<open>validate_event\<close> has accepted (the loop skips the others), where the record is a dict
  with both fields, the service is a str and the timestamp parses; the default branches
  below are those that the guard excludes (lemma \<open>validate_event_fields\<close>).
  \<open>event_service\<close> is \<^verbatim>\<open>event['service'].strip()\<close>, \<open>timestamp_of\<close> is
  \<^verbatim>\<open>self.parse_timestamp(event['timestamp'])\<close>.\<close>

definition event_service :: "pyval \<Rightarrow> string" where
  "event_service event =
     (case event of
        PDict kvs \<Rightarrow> (case map_of kvs ''service'' of Some (PStr sv) \<Rightarrow> py_strip sv | _ \<Rightarrow> [])
      | _ \<Rightarrow> [])"

definition timestamp_of :: "monitor \<Rightarrow> fromisoformat \<Rightarrow> pyval \<Rightarrow> instant option" where
  "timestamp_of self P event =
     (case event of
        PDict kvs \<Rightarrow>
          (case map_of kvs ''timestamp'' of Some ts \<Rightarrow> parse_timestamp self P ts | None \<Rightarrow> None)
      | _ \<Rightarrow> None)"

text \<open>\<^verbatim>\<open>services[service_name].append(event)\<close> on a \<^verbatim>\<open>defaultdict(list)\<close>: a dict keeps
  its keys in the order of their first insertion, so it is an association list.\<close>

fun append_event :: "string \<Rightarrow> pyval \<Rightarrow> (string \<times> pyval list) list \<Rightarrow> (string \<times> pyval list) list"
where
  "append_event k e [] = [(k, [e])]"
| "append_event k e ((k', es) # rest) =
     (if k = k' then (k', es @ [e]) # rest else (k', es) # append_event k e rest)"

text \<open>The first loop (lines 99-106).\<close>

fun group_events ::
  "monitor \<Rightarrow> fromisoformat \<Rightarrow> instant \<Rightarrow> pyval list \<Rightarrow> (string \<times> pyval list) list
     \<Rightarrow> (string \<times> pyval list) list"
where
  "group_events self P now [] services = services"
| "group_events self P now (event # events) services =
     (if \<not> validate_event self P now event then group_events self P now events services
      else group_events self P now events (append_event (event_service event) event services))"

text \<open>The duplicate filter (lines 115-126). The key of the code is the \<^verbatim>\<open>isoformat()\<close> text of
  the parsed instant, which is one-to-one on UTC datetimes; the model keeps the parsed
  instant itself.\<close>

fun remove_duplicates ::
  "monitor \<Rightarrow> fromisoformat \<Rightarrow> pyval list \<Rightarrow> pyval list \<Rightarrow> instant option set \<Rightarrow> pyval list"
where
  "remove_duplicates self P [] unique_events seen_timestamps = unique_events"
| "remove_duplicates self P (event # events) unique_events seen_timestamps =
     (let timestamp_key = timestamp_of self P event in
      if timestamp_key \<notin> seen_timestamps
        then remove_duplicates self P events (unique_events @ [event])
               (insert timestamp_key seen_timestamps)
        else remove_duplicates self P events unique_events seen_timestamps)"

declare remove_duplicates.simps [simp del]

text \<open>\<^verbatim>\<open>list.sort(key=...)\<close> is a stable sort, as \<open>sort_key\<close> is.\<close>

definition sort_events_by_service ::
  "monitor \<Rightarrow> fromisoformat \<Rightarrow> instant \<Rightarrow> pyval list \<Rightarrow> (string \<times> pyval list) list"
where
  "sort_events_by_service self P now events =
     map (\<lambda>(service_name, es).
            (service_name, remove_duplicates self P (sort_key (timestamp_of self P) es) [] {}))
         (group_events self P now events [])"


section \<open>The gap detector\<close>

text \<open>The local variables of \<^verbatim>\<open>detect_missed_heartbeats\<close>. \<open>resyncs\<close> is not a variable of
  the code: it counts how often the body of \<^verbatim>\<open>if gap_seconds > max_gap:\<close> has been
  entered, and nothing reads it.\<close>

record detector_state =
  current_expected :: instant
  consecutive_misses :: int
  event_index :: nat
  alerts :: "instant list"
  resyncs :: nat

datatype control = Continue | Break

text \<open>\<^verbatim>\<open>self.parse_timestamp(event['timestamp'])\<close> where the result is used as a datetime
  at once: subscripting a value that is not a dict raises \<^verbatim>\<open>TypeError\<close>, a missing key
  \<^verbatim>\<open>KeyError\<close>, and arithmetic on the \<^verbatim>\<open>None\<close> of a failed parse \<^verbatim>\<open>TypeError\<close>.\<close>

definition event_time :: "monitor \<Rightarrow> fromisoformat \<Rightarrow> pyval \<Rightarrow> error + instant" where
  "event_time self P event =
     (case event of
        PDict kvs \<Rightarrow>
          (case map_of kvs ''timestamp'' of
             None \<Rightarrow> Inl KeyError
           | Some ts \<Rightarrow>
               (case parse_timestamp self P ts of None \<Rightarrow> Inl TypeError | Some t \<Rightarrow> Inr t))
      | _ \<Rightarrow> Inl TypeError)"

text \<open>The inner scan (lines 162-175); the first component of the result is
  \<^verbatim>\<open>found_heartbeat\<close>.\<close>

function inner_scan ::
  "monitor \<Rightarrow> fromisoformat \<Rightarrow> pyval list \<Rightarrow> detector_state \<Rightarrow> error + bool \<times> detector_state"
where
  "inner_scan self P service_events s =
     (if event_index s < length service_events then
        (case event_time self P (service_events ! event_index s) of
           Inl e \<Rightarrow> Inl e
         | Inr event_time' \<Rightarrow>
             (let time_diff = total_seconds (event_time' - current_expected s) in
              if \<bar>time_diff\<bar> \<le> tolerance_seconds self then
                Inr (True, s\<lparr> consecutive_misses := 0,
                              event_index := event_index s + 1,
                              current_expected := event_time' \<rparr>)
              else if time_diff > tolerance_seconds self then Inr (False, s)
              else inner_scan self P service_events (s\<lparr> event_index := event_index s + 1 \<rparr>)))
      else Inr (False, s))"
  by pat_completeness auto
termination
  by (relation "measure (\<lambda>(self, P, service_events, s). length service_events - event_index s)")
     auto

declare inner_scan.simps [simp del]

text \<open>The projection loop of the trailing extrapolation (lines 189-199). It need not
  terminate for an arbitrary record of parameters, so it is a partial function:
  \<open>None\<close> is a run that does not return.\<close>

partial_function (option) trailing_loop ::
  "monitor \<Rightarrow> instant \<Rightarrow> detector_state \<Rightarrow> (error + detector_state) option"
where
  "trailing_loop self now s =
     (if consecutive_misses s < allowed_misses self then
        (case datetime_add (current_expected s) (timedelta_seconds (interval_seconds self)) of
           Inl e \<Rightarrow> Some (Inl e)
         | Inr t \<Rightarrow>
             (let s1 = s\<lparr> current_expected := t \<rparr>;
                  time_since_expected = total_seconds (now - current_expected s1)
              in if time_since_expected > tolerance_seconds self then
                   (let s2 = s1\<lparr> consecutive_misses := consecutive_misses s1 + 1 \<rparr> in
                    if consecutive_misses s2 \<ge> allowed_misses self then
                      trailing_loop self now
                        (s2\<lparr> alerts := alerts s2 @ [current_expected s2],
                             consecutive_misses := 0 \<rparr>)
                    else trailing_loop self now s2)
                 else Some (Inr s1)))
      else Some (Inr s))"

declare trailing_loop.simps [code]

text \<open>One pass through the body of the main loop (lines 147-200). \<open>Continue\<close> is the
  \<^verbatim>\<open>continue\<close> of line 157 and the fall through the end of the body; \<open>Break\<close> is the
  \<^verbatim>\<open>break\<close> of line 200. Line 147 adds the interval to the expected clock first and may
  raise; \<open>large_gap\<close> is the guard of line 152, evaluated where the addition has returned
  \<open>current_expected + interval\<close>.\<close>

definition large_gap :: "monitor \<Rightarrow> instant \<Rightarrow> bool" where
  "large_gap self current_expected' =
     (let next_expected = current_expected' + timedelta_seconds (interval_seconds self);
          gap_seconds = total_seconds (next_expected - current_expected');
          max_gap = interval_seconds self * gap_limit self
      in gap_seconds > of_int max_gap)"

definition count_miss :: "monitor \<Rightarrow> bool \<Rightarrow> detector_state \<Rightarrow> detector_state" where
  "count_miss self found_heartbeat s =
     (if \<not> found_heartbeat then
        (let s1 = s\<lparr> consecutive_misses := consecutive_misses s + 1 \<rparr> in
         if consecutive_misses s1 \<ge> allowed_misses self then
           s1\<lparr> alerts := alerts s1 @ [current_expected s1], consecutive_misses := 0 \<rparr>
         else s1)
      else s)"

definition trailing ::
  "monitor \<Rightarrow> fromisoformat \<Rightarrow> instant \<Rightarrow> pyval list \<Rightarrow> detector_state
     \<Rightarrow> (error + control \<times> detector_state) option"
where
  "trailing self P now service_events s =
     (if event_index s \<ge> length service_events then
        (if service_events = [] then Some (Inl IndexError)
         else
           (case event_time self P (last service_events) of
              Inl e \<Rightarrow> Some (Inl e)
            | Inr last_event_time \<Rightarrow>
                (let time_since_last = total_seconds (now - last_event_time) in
                 if time_since_last < of_int (interval_seconds self * gap_limit self) then
                   (case trailing_loop self now s of
                      None \<Rightarrow> None
                    | Some (Inl e) \<Rightarrow> Some (Inl e)
                    | Some (Inr s') \<Rightarrow> Some (Inr (Break, s')))
                 else Some (Inr (Break, s)))))
      else Some (Inr (Continue, s)))"

definition slot ::
  "monitor \<Rightarrow> fromisoformat \<Rightarrow> instant \<Rightarrow> pyval list \<Rightarrow> detector_state \<Rightarrow> instant
     \<Rightarrow> (error + control \<times> detector_state) option"
where
  "slot self P now service_events s next_expected =
     (case inner_scan self P service_events (s\<lparr> current_expected := next_expected \<rparr>) of
        Inl e \<Rightarrow> Some (Inl e)
      | Inr (found_heartbeat, s1) \<Rightarrow>
          trailing self P now service_events (count_miss self found_heartbeat s1))"

definition loop_body ::
  "monitor \<Rightarrow> fromisoformat \<Rightarrow> instant \<Rightarrow> pyval list \<Rightarrow> detector_state
     \<Rightarrow> (error + control \<times> detector_state) option"
where
  "loop_body self P now service_events s =
     (case datetime_add (current_expected s) (timedelta_seconds (interval_seconds self)) of
        Inl e \<Rightarrow> Some (Inl e)
      | Inr next_expected \<Rightarrow>
          if large_gap self (current_expected s) then
            (let s0 = s\<lparr> resyncs := resyncs s + 1 \<rparr> in
             if event_index s0 < length service_events then
               (case event_time self P (service_events ! event_index s0) of
                  Inl e \<Rightarrow> Some (Inl e)
                | Inr t \<Rightarrow>
                    Some (Inr (Continue, s0\<lparr> current_expected := t,
                                              consecutive_misses := 0,
                                              event_index := event_index s0 + 1 \<rparr>)))
             else slot self P now service_events s0 next_expected)
          else slot self P now service_events s next_expected)"

text \<open>The main loop (line 146). It is a partial function for the same reason as the
  projection loop.\<close>

partial_function (option) main_loop ::
  "monitor \<Rightarrow> fromisoformat \<Rightarrow> instant \<Rightarrow> pyval list \<Rightarrow> detector_state
     \<Rightarrow> (error + detector_state) option"
where
  "main_loop self P now service_events s =
     (if event_index s \<le> length service_events then
        (case loop_body self P now service_events s of
           None \<Rightarrow> None
         | Some (Inl e) \<Rightarrow> Some (Inl e)
         | Some (Inr (Continue, s')) \<Rightarrow> main_loop self P now service_events s'
         | Some (Inr (Break, s')) \<Rightarrow> Some (Inr s'))
      else Some (Inr s))"

declare main_loop.simps [code]

text \<open>\<open>detect_run\<close> is \<^verbatim>\<open>detect_missed_heartbeats\<close> with the final value of the counter
  \<open>resyncs\<close> beside the returned list; \<open>detect_missed_heartbeats\<close> is the method itself.\<close>

definition detect_run ::
  "monitor \<Rightarrow> fromisoformat \<Rightarrow> instant \<Rightarrow> pyval list \<Rightarrow> (error + instant list \<times> nat) option"
where
  "detect_run self P now service_events =
     (if service_events = [] then Some (Inr ([], 0))
      else
        (case event_time self P (service_events ! 0) of
           Inl e \<Rightarrow> Some (Inl e)
         | Inr first_event_time \<Rightarrow>
             (case main_loop self P now service_events
                     \<lparr> current_expected = first_event_time, consecutive_misses = 0,
                       event_index = 1, alerts = [], resyncs = 0 \<rparr> of
                None \<Rightarrow> None
              | Some (Inl e) \<Rightarrow> Some (Inl e)
              | Some (Inr s) \<Rightarrow> Some (Inr (alerts s, resyncs s)))))"

definition detect_missed_heartbeats ::
  "monitor \<Rightarrow> fromisoformat \<Rightarrow> instant \<Rightarrow> pyval list \<Rightarrow> (error + instant list) option"
where
  "detect_missed_heartbeats self P now service_events =
     (case detect_run self P now service_events of
        None \<Rightarrow> None
      | Some (Inl e) \<Rightarrow> Some (Inl e)
      | Some (Inr (alerts', n)) \<Rightarrow> Some (Inr alerts'))"

section \<open>Aggregation\<close>

record alert =
  service :: string
  alert_at :: string

text \<open>The loop over \<^verbatim>\<open>services_events.items()\<close> (lines 212-219).\<close>

fun collect_alerts ::
  "monitor \<Rightarrow> fromisoformat \<Rightarrow> strftime \<Rightarrow> instant \<Rightarrow> (string \<times> pyval list) list \<Rightarrow> alert list
     \<Rightarrow> (error + alert list) option"
where
  "collect_alerts self P F now [] all_alerts = Some (Inr all_alerts)"
| "collect_alerts self P F now ((service_name, service_events) # rest) all_alerts =
     (case detect_missed_heartbeats self P now service_events of
        None \<Rightarrow> None
      | Some (Inl e) \<Rightarrow> Some (Inl e)
      | Some (Inr alert_times) \<Rightarrow>
          collect_alerts self P F now rest
            (all_alerts @
             map (\<lambda>alert_time. \<lparr> service = service_name, alert_at = F alert_time \<rparr>) alert_times))"

definition monitor_heartbeats ::
  "monitor \<Rightarrow> fromisoformat \<Rightarrow> strftime \<Rightarrow> instant \<Rightarrow> pyval \<Rightarrow> (error + alert list) option"
where
  "monitor_heartbeats self P F now events =
     (case events of
        PList evs \<Rightarrow>
          (case collect_alerts self P F now (sort_events_by_service self P now evs) [] of
             None \<Rightarrow> None
           | Some (Inl e) \<Rightarrow> Some (Inl e)
           | Some (Inr all_alerts) \<Rightarrow> Some (Inr (sort_key alert_at all_alerts)))
      | _ \<Rightarrow> Some (Inr []))"

section \<open>Auxiliary definitions for the properties\<close>

text \<open>The invariant of the detector's loops, for a lower bound \<open>lo\<close> of the expected clock:
  the clock never runs behind \<open>lo\<close>, the miss counter stays below the threshold, the alerts
  are strictly increasing, at least one interval after \<open>lo\<close> and not after the clock, and
  the large-gap branch has not run.\<close>

definition detector_inv :: "monitor \<Rightarrow> instant \<Rightarrow> detector_state \<Rightarrow> bool" where
  "detector_inv self lo s \<longleftrightarrow>
     lo \<le> current_expected s \<and>
     0 \<le> consecutive_misses s \<and> consecutive_misses s < allowed_misses self \<and>
     sorted_wrt (<) (alerts s) \<and>
     (\<forall>a \<in> set (alerts s). lo + timedelta_seconds (interval_seconds self) \<le> a \<and> a \<le> current_expected s) \<and>
     resyncs s = 0"

text \<open>A sufficient condition for the expected clock to stay in the range of a datetime:
  every instant of the timeline is a datetime with two intervals of room below
  \<^verbatim>\<open>datetime.max\<close>, and the current time has one interval of room unless the service is
  stale (then the trailing extrapolation does not run).\<close>

definition clock_in_range :: "monitor \<Rightarrow> instant list \<Rightarrow> instant \<Rightarrow> bool" where
  "clock_in_range self ts now \<longleftrightarrow>
     list_all (\<lambda>t. datetime_min \<le> t \<and>
                   t + 2 * timedelta_seconds (interval_seconds self) \<le> datetime_max) ts \<and>
     (now + timedelta_seconds (interval_seconds self) \<le> datetime_max \<or>
      of_int (interval_seconds self * gap_limit self) \<le> total_seconds (now - last ts))"

text \<open>A list of instants in which each one is exactly \<open>d\<close> after its predecessor.\<close>

fun spaced :: "int \<Rightarrow> instant list \<Rightarrow> bool" where
  "spaced d (a # b # rest) \<longleftrightarrow> b = a + d \<and> spaced d (b # rest)"
| "spaced d [a] \<longleftrightarrow> True"
| "spaced d [] \<longleftrightarrow> True"

text \<open>Sample data: the configuration of \<^verbatim>\<open>main()\<close>, where the float \<^verbatim>\<open>0.1\<close> is
  \<open>3602879701896397 / 2 ^ 55\<close> and \<^verbatim>\<open>60 * 0.1\<close> is \<^verbatim>\<open>6.0\<close>; the monitor
  \<^verbatim>\<open>HeartbeatMonitor(3, 2, 0.7)\<close>, where \<^verbatim>\<open>0.7\<close> is \<open>3152519739159347 / 2 ^ 52\<close> and
  \<^verbatim>\<open>3 * 0.7\<close> is \<^verbatim>\<open>2.0999999999999996\<close>; records as the tests build them; and the values
  of the two library functions on the timestamps that the samples use.\<close>

definition default_monitor :: monitor where
  "default_monitor =
     \<lparr> interval_seconds = 60, allowed_misses = 3,
       tolerance = 3602879701896397 / 36028797018963968, future_limit = 300,
       gap_limit = 10, tolerance_seconds = 6 \<rparr>"

definition tight_monitor :: monitor where
  "tight_monitor =
     \<lparr> interval_seconds = 3, allowed_misses = 2,
       tolerance = 3152519739159347 / 4503599627370496, future_limit = 300,
       gap_limit = 10, tolerance_seconds = 1182194902184755 / 562949953421312 \<rparr>"

definition heartbeat :: "string \<Rightarrow> string \<Rightarrow> pyval" where
  "heartbeat name ts = PDict [(''service'', PStr name), (''timestamp'', PStr ts)]"

definition sample_fromisoformat :: fromisoformat where
  "sample_fromisoformat =
     map_of [(''2025-08-04T10:00:00+00:00'', Aware 1754301600000000 0),
             (''2025-08-04T10:00:03+00:00'', Aware 1754301603000000 0),
             (''2025-08-04T10:01:00+00:00'', Aware 1754301660000000 0),
             (''2025-08-04T10:02:00+00:00'', Aware 1754301720000000 0),
             (''2025-08-04T12:00:00+00:00'', Aware 1754308800000000 0),
             (''9999-12-31T23:59:30+00:00'', Aware 253402300770000000 0)]"

definition sample_strftime :: strftime where
  "sample_strftime t =
     (if t = 1754301780000000 then ''2025-08-04T10:03:00Z''
      else if t = 1754301606000000 then ''2025-08-04T10:00:06Z''
      else if t = 1754301900000000 then ''2025-08-04T10:05:00Z''
      else if t = 1754301960000000 then ''2025-08-04T10:06:00Z''
      else if t = 1754302080000000 then ''2025-08-04T10:08:00Z''
      else [])"

section \<open>Properties\<close>

subsection \<open>Rounding to a double\<close>

lemma expo_bounds: "0 < x \<Longrightarrow> 2 powi expo x \<le> x \<and> x < 2 powi (expo x + 1)"
proof (induction x rule: expo.induct)
  case (1 x)
  consider (big) "2 \<le> x" | (small) "x < 1" | (unit) "1 \<le> x" "x < 2" by linarith
  then show ?case
  proof cases
    case big
    then have e: "expo x = expo (x / 2) + 1" using "1.prems" by (subst expo.simps) simp
    have "2 powi expo (x / 2) \<le> x / 2 \<and> x / 2 < 2 powi (expo (x / 2) + 1)"
      using "1.IH"(1) "1.prems" big by simp
    then show ?thesis unfolding e by (simp add: power_int_add field_simps)
  next
    case small
    then have e: "expo x = expo (x * 2) - 1" using "1.prems" by (subst expo.simps) simp
    have "2 powi expo (x * 2) \<le> x * 2 \<and> x * 2 < 2 powi (expo (x * 2) + 1)"
      using "1.IH"(2) "1.prems" small by simp
    then show ?thesis unfolding e by (simp add: power_int_add power_int_diff field_simps)
  next
    case unit
    then have "expo x = 0" by (subst expo.simps) simp
    then show ?thesis using unit by simp
  qed
qed


lemma two_powi_less: "(2::rat) powi a < 2 powi b \<Longrightarrow> a < b"
proof (rule ccontr)
  assume "(2::rat) powi a < 2 powi b" "\<not> a < b"
  then have "b \<le> a" by simp
  then have "(2::rat) powi b \<le> 2 powi a" by (intro power_int_increasing) simp_all
  with \<open>(2::rat) powi a < 2 powi b\<close> show False by simp
qed

lemma two_powi_pos: "(0::rat) < 2 powi k"
  by simp

lemma two_powi_shift: "(2::rat) powi a * 2 powi b = 2 powi (a + b)"
  by (simp add: power_int_add)

lemma expo_unique:
  assumes "2 powi e \<le> x" "x < 2 powi (e + 1)"
  shows "expo x = e"
proof -
  have pos: "0 < x" using assms(1) by (meson less_le_trans zero_less_numeral zero_less_power_int)
  from expo_bounds[OF pos] have b: "2 powi expo x \<le> x" "x < 2 powi (expo x + 1)" by simp_all
  have "(2::rat) powi e < 2 powi (expo x + 1)" using assms(1) b(2) by linarith
  then have "e < expo x + 1" by (rule two_powi_less)
  moreover have "(2::rat) powi expo x < 2 powi (e + 1)" using assms(2) b(1) by linarith
  then have "expo x < e + 1" by (rule two_powi_less)
  ultimately show ?thesis by simp
qed

lemma expo_mono:
  assumes "0 < x" "x \<le> y"
  shows "expo x \<le> expo y"
proof -
  have "0 < y" using assms by simp
  from expo_bounds[OF assms(1)] expo_bounds[OF this] assms(2)
  have "(2::rat) powi expo x < 2 powi (expo y + 1)" by linarith
  then have "expo x < expo y + 1" by (rule two_powi_less)
  then show ?thesis by simp
qed

lemma round_half_even_of_int: "round_half_even (of_int n) = n"
  by (simp add: round_half_even_def)

lemma round_half_even_floor:
  "\<lfloor>x\<rfloor> \<le> round_half_even x \<and> round_half_even x \<le> \<lfloor>x\<rfloor> + 1"
  by (simp add: round_half_even_def Let_def)

lemma round_half_even_mono:
  assumes "x \<le> y"
  shows "round_half_even x \<le> round_half_even y"
proof (cases "\<lfloor>x\<rfloor> = \<lfloor>y\<rfloor>")
  case True
  then have "x - of_int \<lfloor>x\<rfloor> \<le> y - of_int \<lfloor>y\<rfloor>" using assms by simp
  then show ?thesis using True by (auto simp add: round_half_even_def Let_def)
next
  case False
  then have "\<lfloor>x\<rfloor> < \<lfloor>y\<rfloor>" using floor_mono[OF assms] by simp
  then show ?thesis
    using round_half_even_floor[of x] round_half_even_floor[of y] by linarith
qed

lemma round_pos_bounds:
  assumes "0 < x"
  shows "2 powi expo x \<le> round_pos x" "round_pos x \<le> 2 powi (expo x + 1)"
proof -
  let ?e = "expo x"
  let ?s = "x * 2 powi (52 - ?e)"
  let ?r = "round_half_even ?s"
  from expo_bounds[OF assms] have b: "2 powi ?e \<le> x" "x < 2 powi (?e + 1)" by simp_all
  have "(2::rat) powi ?e * 2 powi (52 - ?e) \<le> ?s"
    using b(1) two_powi_pos[of "52 - ?e"] by (intro mult_right_mono) simp_all
  then have lo: "(2::rat) powi 52 \<le> ?s" by (simp only: two_powi_shift) simp
  have "?s \<le> (2::rat) powi (?e + 1) * 2 powi (52 - ?e)"
    using b(2) two_powi_pos[of "52 - ?e"] by (intro mult_right_mono) simp_all
  then have hi: "?s \<le> (2::rat) powi 53" by (simp only: two_powi_shift) simp
  have "of_int (2 ^ 52) \<le> ?s" using lo by simp
  from round_half_even_mono[OF this] have l: "(2::int) ^ 52 \<le> ?r"
    by (simp only: round_half_even_of_int)
  have "?s \<le> of_int (2 ^ 53)" using hi by simp
  from round_half_even_mono[OF this] have h: "?r \<le> (2::int) ^ 53"
    by (simp only: round_half_even_of_int)
  have l': "(2::rat) powi 52 \<le> of_int ?r"
  proof -
    have "(of_int (2 ^ 52) :: rat) \<le> of_int ?r" using l by (simp only: of_int_le_iff)
    then show ?thesis by simp
  qed
  have h': "(of_int ?r :: rat) \<le> 2 powi 53"
  proof -
    have "(of_int ?r :: rat) \<le> of_int (2 ^ 53)" using h by (simp only: of_int_le_iff)
    then show ?thesis by simp
  qed
  have "(2::rat) powi 52 * 2 powi (?e - 52) \<le> of_int ?r * 2 powi (?e - 52)"
    using l' two_powi_pos[of "?e - 52"] by (intro mult_right_mono) simp_all
  then have "(2::rat) powi ?e \<le> of_int ?r * 2 powi (?e - 52)"
    by (simp only: two_powi_shift) simp
  then show "2 powi expo x \<le> round_pos x" using assms by (simp add: round_pos_def)
  have "of_int ?r * 2 powi (?e - 52) \<le> (2::rat) powi 53 * 2 powi (?e - 52)"
    using h' two_powi_pos[of "?e - 52"] by (intro mult_right_mono) simp_all
  then have "of_int ?r * 2 powi (?e - 52) \<le> (2::rat) powi (?e + 1)"
    by (simp only: two_powi_shift) (simp add: add.commute)
  then show "round_pos x \<le> 2 powi (expo x + 1)" using assms by (simp add: round_pos_def)
qed

lemma round_pos_nonneg: "0 \<le> round_pos x"
proof (cases "0 < x")
  case True
  have "(0::rat) \<le> 2 powi expo x" by simp
  then show ?thesis using round_pos_bounds(1)[OF True] by linarith
qed (simp add: round_pos_def)

lemma round_pos_mono:
  assumes "x \<le> y"
  shows "round_pos x \<le> round_pos y"
proof (cases "0 < x")
  case False
  then show ?thesis using round_pos_nonneg[of y] by (simp add: round_pos_def)
next
  case True
  then have y: "0 < y" using assms by simp
  show ?thesis
  proof (cases "expo x = expo y")
    case same: True
    have "x * 2 powi (52 - expo y) \<le> y * 2 powi (52 - expo y)"
      using assms two_powi_pos[of "52 - expo y"] by (intro mult_right_mono) simp_all
    from round_half_even_mono[OF this]
    have "(of_int (round_half_even (x * 2 powi (52 - expo y))) :: rat) * 2 powi (expo y - 52)
            \<le> of_int (round_half_even (y * 2 powi (52 - expo y))) * 2 powi (expo y - 52)"
      using two_powi_pos[of "expo y - 52"] by (intro mult_right_mono) simp_all
    then show ?thesis using True y same by (simp add: round_pos_def)
  next
    case False
    then have "expo x + 1 \<le> expo y" using expo_mono[OF True assms] by simp
    then have "(2::rat) powi (expo x + 1) \<le> 2 powi expo y"
      by (intro power_int_increasing) simp_all
    then show ?thesis
      using round_pos_bounds(2)[OF True] round_pos_bounds(1)[OF y] by linarith
  qed
qed

lemma round_pos_exact:
  assumes "0 < m" "m < 2 ^ 53"
  shows "round_pos (of_int m * 2 powi k) = of_int m * 2 powi k"
proof -
  let ?x = "of_int m * (2::rat) powi k"
  let ?p = "52 - expo ?x"
  have pos: "0 < ?x" using assms(1) two_powi_pos[of k] by simp
  have "(of_int m :: rat) < of_int (2 ^ 53)" using assms(2) by (simp only: of_int_less_iff)
  then have "(of_int m :: rat) < 2 powi 53" by simp
  then have "?x < 2 powi 53 * 2 powi k"
    using two_powi_pos[of k] by (intro mult_strict_right_mono)
  then have "?x < 2 powi (53 + k)" by (simp only: two_powi_shift)
  with expo_bounds[OF pos] have "(2::rat) powi expo ?x < 2 powi (53 + k)" by linarith
  then have "expo ?x < 53 + k" by (rule two_powi_less)
  then have n: "0 \<le> k + ?p" by simp
  have "?x * 2 powi ?p = of_int m * (2 powi k * 2 powi ?p)" by (simp only: mult.assoc)
  also have "\<dots> = of_int m * 2 powi (k + ?p)" by (simp only: two_powi_shift)
  also have "\<dots> = of_int (m * 2 ^ nat (k + ?p))"
    using n by (simp add: power_int_nonneg_exp)
  finally have "round_half_even (?x * 2 powi ?p) = m * 2 ^ nat (k + ?p)"
    by (simp only: round_half_even_of_int)
  then have "round_pos ?x = of_int (m * 2 ^ nat (k + ?p)) * 2 powi (expo ?x - 52)"
    using pos by (simp add: round_pos_def)
  also have "of_int (m * 2 ^ nat (k + ?p)) = of_int m * (2::rat) powi (k + ?p)"
    using n by (simp add: power_int_nonneg_exp)
  also have "of_int m * (2::rat) powi (k + ?p) * 2 powi (expo ?x - 52)
               = of_int m * (2 powi (k + ?p) * 2 powi (expo ?x - 52))"
    by (simp only: mult.assoc)
  also have "\<dots> = ?x" by (simp only: two_powi_shift) simp
  finally show ?thesis .
qed

lemma round_double_mono:
  assumes "x \<le> y"
  shows "round_double x \<le> round_double y"
proof -
  consider (neg) "y < 0" | (mixed) "x < 0" "0 \<le> y" | (pos) "0 \<le> x" using assms by linarith
  then show ?thesis
  proof cases
    case neg
    then show ?thesis using assms round_pos_mono[of "- y" "- x"] by (simp add: round_double_def)
  next
    case mixed
    then show ?thesis using round_pos_nonneg[of y] round_pos_nonneg[of "- x"]
      by (simp add: round_double_def)
  next
    case pos
    then show ?thesis using assms round_pos_mono[of x y] by (simp add: round_double_def)
  qed
qed

lemma round_double_exact:
  assumes "\<bar>m\<bar> < 2 ^ 53"
  shows "round_double (of_int m * 2 powi k) = of_int m * 2 powi k"
proof -
  consider (neg) "m < 0" | (zero) "m = 0" | (pos) "0 < m" by linarith
  then show ?thesis
  proof cases
    case neg
    then have "of_int m * (2::rat) powi k < 0"
      by (intro mult_neg_pos) simp_all
    moreover have "round_pos (of_int (- m) * 2 powi k) = of_int (- m) * 2 powi k"
      using neg assms by (intro round_pos_exact) simp_all
    ultimately show ?thesis by (simp add: round_double_def)
  next
    case zero
    then show ?thesis by (simp add: round_double_def round_pos_def)
  next
    case pos
    then have "0 \<le> of_int m * (2::rat) powi k"
      by (intro mult_nonneg_nonneg) simp_all
    then have "\<not> of_int m * (2::rat) powi k < 0" by linarith
    moreover have "round_pos (of_int m * 2 powi k) = of_int m * 2 powi k"
      using pos assms by (intro round_pos_exact) simp_all
    ultimately show ?thesis by (simp add: round_double_def)
  qed
qed

lemma round_double_of_int: "\<bar>n\<bar> < 2 ^ 53 \<Longrightarrow> round_double (of_int n) = of_int n"
  using round_double_exact[of n 0] by simp

lemma round_double_zero: "round_double 0 = 0"
  by (simp add: round_double_def round_pos_def)

lemma round_double_pos: "0 < round_double x \<Longrightarrow> 0 < x"
proof (rule ccontr)
  assume "0 < round_double x" "\<not> 0 < x"
  then have "round_double x \<le> round_double 0" by (intro round_double_mono) simp
  with \<open>0 < round_double x\<close> show False by (simp add: round_double_zero)
qed


subsection \<open>Seconds as floats\<close>

lemma total_seconds_mono: "a \<le> b \<Longrightarrow> total_seconds a \<le> total_seconds b"
  unfolding total_seconds_def by (intro round_double_mono divide_right_mono) simp_all

lemma total_seconds_zero: "total_seconds 0 = 0"
  by (simp add: total_seconds_def round_double_zero)

lemma total_seconds_pos: "0 < total_seconds d \<Longrightarrow> 0 < d"
proof -
  assume "0 < total_seconds d"
  then have "(0::rat) < of_int d / 1000000" unfolding total_seconds_def by (rule round_double_pos)
  then show "0 < d" by simp
qed

lemma total_seconds_whole:
  assumes "\<bar>n\<bar> < 2 ^ 53"
  shows "total_seconds (timedelta_seconds n) = of_int n"
  using round_double_of_int[OF assms] by (simp add: total_seconds_def timedelta_seconds_def)

lemma valid_config_tol: "valid_config self \<Longrightarrow> 0 \<le> tolerance_seconds self"
proof -
  assume v: "valid_config self"
  then have "(0::rat) \<le> of_int (interval_seconds self) * tolerance self"
    by (simp add: valid_config_def)
  from round_double_mono[OF this] show ?thesis using v
    by (simp add: valid_config_def round_double_zero)
qed

lemma valid_config_tol_le:
  "valid_config self \<Longrightarrow> tolerance_seconds self \<le> of_int (interval_seconds self)"
proof -
  assume v: "valid_config self"
  then have "of_int (interval_seconds self) * tolerance self \<le> of_int (interval_seconds self)"
    by (simp add: valid_config_def mult_left_le)
  from round_double_mono[OF this]
  have "tolerance_seconds self \<le> round_double (of_int (interval_seconds self))"
    using v by (simp add: valid_config_def)
  moreover have "\<bar>interval_seconds self\<bar> < 2 ^ 53" using v by (simp add: valid_config_def)
  ultimately show ?thesis by (simp add: round_double_of_int)
qed

text \<open>A difference of microseconds whose float is at least \<open>- n\<close> is at least \<open>- n\<close> seconds:
  the double \<open>- n - 2 ^ - 21\<close> lies between \<open>- n\<close> and the next multiple of a microsecond
  below it.\<close>

lemma total_seconds_lower:
  assumes "\<bar>total_seconds d\<bar> \<le> tol" "tol \<le> of_int n" "0 \<le> n" "n \<le> 3600"
  shows "- timedelta_seconds n \<le> d"
proof (rule ccontr)
  assume "\<not> - timedelta_seconds n \<le> d"
  then have "d \<le> - n * 1000000 - 1" by (simp add: timedelta_seconds_def)
  then have "(of_int d :: rat) \<le> of_int (- n * 1000000 - 1)" by (simp only: of_int_le_iff)
  then have "(of_int d :: rat) / 1000000 \<le> of_int (- n * 1000000 - 1) / 1000000"
    by (intro divide_right_mono) simp_all
  also have "\<dots> = - of_int n - 1 / 1000000" by (simp add: field_simps)
  also have "\<dots> \<le> - of_int n - 1 / 2097152" by simp
  also have "\<dots> = of_int (- (n * 2097152 + 1)) * 2 powi (- 21)"
    by (simp add: power_int_minus field_simps)
  finally have "total_seconds d \<le> round_double (of_int (- (n * 2097152 + 1)) * 2 powi (- 21))"
    unfolding total_seconds_def by (rule round_double_mono)
  moreover have "\<bar>- (n * 2097152 + 1)\<bar> < (2::int) ^ 53" using assms(3,4) by simp
  ultimately have "total_seconds d \<le> of_int (- (n * 2097152 + 1)) * 2 powi (- 21)"
    by (simp only: round_double_exact)
  also have "\<dots> = - of_int n - 1 / 2097152" by (simp add: power_int_minus field_simps)
  finally have "total_seconds d < - of_int n" by simp
  then show False using assms(1,2) by linarith
qed

subsection \<open>The detector's loops\<close>

lemma datetime_add_cases:
  obtains (overflow) "datetime_add t d = Inl OverflowError"
      "\<not> (datetime_min \<le> t + d \<and> t + d \<le> datetime_max)"
    | (ok) "datetime_add t d = Inr (t + d)" "datetime_min \<le> t + d" "t + d \<le> datetime_max"
  by (cases "datetime_min \<le> t + d \<and> t + d \<le> datetime_max") (simp_all add: datetime_add_def)

lemma event_time_nth:
  assumes "map (event_time self P) evs = map Inr ts" "i < length evs"
  shows "event_time self P (evs ! i) = Inr (ts ! i)"
proof -
  have "length ts = length evs" using assms(1) by (metis length_map)
  moreover have "map (event_time self P) evs ! i = map Inr ts ! i" using assms(1) by simp
  ultimately show ?thesis using assms(2) by simp
qed

lemma inner_scan_spec:
  assumes parsed: "map (event_time self P) evs = map Inr ts"
    and tol: "0 \<le> tolerance_seconds self"
  shows "\<exists>found s'. inner_scan self P evs s = Inr (found, s')
           \<and> event_index s \<le> event_index s'
           \<and> event_index s' \<le> max (event_index s) (length evs)
           \<and> alerts s' = alerts s \<and> resyncs s' = resyncs s
           \<and> (found \<longrightarrow> event_index s < event_index s' \<and> event_index s' \<le> length evs
                  \<and> consecutive_misses s' = 0
                  \<and> current_expected s' = ts ! (event_index s' - 1)
                  \<and> \<bar>total_seconds (current_expected s' - current_expected s)\<bar> \<le> tolerance_seconds self)
           \<and> (\<not> found \<longrightarrow> current_expected s' = current_expected s
                  \<and> consecutive_misses s' = consecutive_misses s
                  \<and> (event_index s' < length evs \<longrightarrow>
                        total_seconds (ts ! event_index s' - current_expected s) > tolerance_seconds self))"
  using parsed tol
proof (induction self P evs s rule: inner_scan.induct)
  case (1 self P evs s)
  show ?case
  proof (cases "event_index s < length evs")
    case False
    then show ?thesis using inner_scan.simps[of self P evs s] by auto
  next
    case True
    have et: "event_time self P (evs ! event_index s) = Inr (ts ! event_index s)"
      using event_time_nth[OF "1.prems"(1) True] .
    let ?d = "total_seconds (ts ! event_index s - current_expected s)"
    consider (hit) "\<bar>?d\<bar> \<le> tolerance_seconds self"
      | (future) "\<not> \<bar>?d\<bar> \<le> tolerance_seconds self" "?d > tolerance_seconds self"
      | (old) "\<not> \<bar>?d\<bar> \<le> tolerance_seconds self" "\<not> ?d > tolerance_seconds self"
      by blast
    then show ?thesis
    proof cases
      case hit
      then show ?thesis using True et inner_scan.simps[of self P evs s] by (auto simp add: Let_def)
    next
      case future
      then show ?thesis using True et inner_scan.simps[of self P evs s] by (auto simp add: Let_def)
    next
      case old
      have neg: "\<not> - ?d \<le> tolerance_seconds self" using old by linarith
      have step: "inner_scan self P evs s = inner_scan self P evs (s\<lparr>event_index := event_index s + 1\<rparr>)"
        using True et old neg inner_scan.simps[of self P evs s] by (simp add: Let_def abs_le_iff)
      from "1.IH"[OF True et refl _ _ "1.prems"] old neg
      obtain found s' where
        r: "inner_scan self P evs (s\<lparr>event_index := event_index s + 1\<rparr>) = Inr (found, s')"
        and rest: "event_index (s\<lparr>event_index := event_index s + 1\<rparr>) \<le> event_index s'"
           "event_index s' \<le> max (event_index (s\<lparr>event_index := event_index s + 1\<rparr>)) (length evs)"
           "alerts s' = alerts s" "resyncs s' = resyncs s"
           "found \<longrightarrow> event_index (s\<lparr>event_index := event_index s + 1\<rparr>) < event_index s' \<and> event_index s' \<le> length evs
                  \<and> consecutive_misses s' = 0
                  \<and> current_expected s' = ts ! (event_index s' - 1)
                  \<and> \<bar>total_seconds (current_expected s' - current_expected s)\<bar> \<le> tolerance_seconds self"
           "\<not> found \<longrightarrow> current_expected s' = current_expected s
                  \<and> consecutive_misses s' = consecutive_misses s
                  \<and> (event_index s' < length evs \<longrightarrow>
                        total_seconds (ts ! event_index s' - current_expected s) > tolerance_seconds self)"
        by auto
      show ?thesis using r rest True unfolding step by auto
    qed
  qed
qed


lemma last_event_time:
  assumes "map (event_time self P) evs = map Inr ts" "evs \<noteq> []"
  shows "event_time self P (last evs) = Inr (last ts)"
proof -
  have len: "length ts = length evs" using assms(1) by (metis length_map)
  have "event_time self P (evs ! (length evs - 1)) = Inr (ts ! (length evs - 1))"
    using assms by (intro event_time_nth) auto
  moreover have "ts \<noteq> []" using assms(2) len by auto
  ultimately show ?thesis using assms(2) len by (simp add: last_conv_nth)
qed

lemma large_gap_never: "valid_config self \<Longrightarrow> \<not> large_gap self ce"
proof -
  assume v: "valid_config self"
  then have "\<bar>interval_seconds self\<bar> < 2 ^ 53" by (simp add: valid_config_def)
  from total_seconds_whole[OF this]
  have g: "total_seconds (timedelta_seconds (interval_seconds self)) = of_int (interval_seconds self)" .
  from v have "(1::rat) \<le> of_int (gap_limit self)" "(0::rat) \<le> of_int (interval_seconds self)"
    by (simp_all add: valid_config_def)
  then have "of_int (interval_seconds self) * (1::rat)
               \<le> of_int (interval_seconds self) * of_int (gap_limit self)"
    by (rule_tac mult_left_mono)
  then show ?thesis by (simp add: large_gap_def Let_def g)
qed

lemma trailing_loop_inv:
  assumes "valid_config self" "detector_inv self lo s"
  shows "\<exists>r. trailing_loop self now s = Some r \<and>
           ((r = Inl OverflowError \<and>
               \<not> (datetime_min \<le> lo \<and>
                  current_expected s + timedelta_seconds (interval_seconds self) \<le> datetime_max \<and>
                  now + timedelta_seconds (interval_seconds self) \<le> datetime_max)) \<or>
            (\<exists>s'. r = Inr s' \<and> detector_inv self lo s' \<and> event_index s' = event_index s
                    \<and> length (alerts s) \<le> length (alerts s')))"
  using assms
proof (induction "nat (now - current_expected s)" arbitrary: s rule: less_induct)
  case less
  let ?I = "timedelta_seconds (interval_seconds self)"
  have Ipos: "0 < ?I" using less.prems(1) by (simp add: valid_config_def timedelta_seconds_def)
  have lt: "consecutive_misses s < allowed_misses self"
    and lo: "lo \<le> current_expected s"
    using less.prems(2) by (simp_all add: detector_inv_def)
  show ?case
  proof (cases "current_expected s" ?I rule: datetime_add_cases)
    case overflow
    have "trailing_loop self now s = Some (Inl OverflowError)"
      using lt overflow(1) by (subst trailing_loop.simps) simp
    moreover have "\<not> (datetime_min \<le> lo \<and> current_expected s + ?I \<le> datetime_max \<and>
                      now + ?I \<le> datetime_max)"
      using overflow(2) lo Ipos by linarith
    ultimately show ?thesis by simp
  next
    case ok
    let ?s1 = "s\<lparr>current_expected := current_expected s + ?I\<rparr>"
    show ?thesis
    proof (cases "total_seconds (now - current_expected ?s1) > tolerance_seconds self")
      case False
      have "trailing_loop self now s = Some (Inr ?s1)"
        using lt False ok(1) by (subst trailing_loop.simps) (simp add: Let_def)
      moreover have "detector_inv self lo ?s1"
        using less.prems(2) Ipos by (auto simp: detector_inv_def)
      ultimately show ?thesis by simp
    next
      case True
      then have "0 < total_seconds (now - current_expected ?s1)"
        using valid_config_tol[OF less.prems(1)] by linarith
      then have pos: "0 < now - current_expected ?s1" by (rule total_seconds_pos)
      let ?s2 = "?s1\<lparr>consecutive_misses := consecutive_misses ?s1 + 1\<rparr>"
      let ?s3 = "?s2\<lparr>alerts := alerts ?s2 @ [current_expected ?s2], consecutive_misses := 0\<rparr>"
      have room: "current_expected ?s1 + ?I \<le> datetime_max" if "now + ?I \<le> datetime_max"
        using pos that by simp
      show ?thesis
      proof (cases "consecutive_misses ?s2 \<ge> allowed_misses self")
        case emit: True
        have eq: "trailing_loop self now s = trailing_loop self now ?s3"
          using lt True emit ok(1) by (subst trailing_loop.simps) (simp add: Let_def)
        have m: "nat (now - current_expected ?s3) < nat (now - current_expected s)"
          using pos Ipos by simp
        have inv: "detector_inv self lo ?s3"
          using less.prems Ipos by (auto simp: detector_inv_def sorted_wrt_append valid_config_def)
        from less.hyps[OF m less.prems(1) inv] room show ?thesis unfolding eq by auto
      next
        case False
        have eq: "trailing_loop self now s = trailing_loop self now ?s2"
          using lt True False ok(1) by (subst trailing_loop.simps) (simp add: Let_def)
        have m: "nat (now - current_expected ?s2) < nat (now - current_expected s)"
          using pos Ipos by simp
        have inv: "detector_inv self lo ?s2"
          using less.prems Ipos False by (auto simp: detector_inv_def)
        from less.hyps[OF m less.prems(1) inv] room show ?thesis unfolding eq by auto
      qed
    qed
  qed
qed

lemma trailing_spec:
  assumes v: "valid_config self"
    and parsed: "map (event_time self P) evs = map Inr ts"
    and ne: "evs \<noteq> []"
    and inv: "detector_inv self lo s"
  shows "\<exists>r. trailing self P now evs s = Some r \<and>
           ((r = Inl OverflowError \<and>
               \<not> (datetime_min \<le> lo \<and>
                  current_expected s + timedelta_seconds (interval_seconds self) \<le> datetime_max \<and>
                  (now + timedelta_seconds (interval_seconds self) \<le> datetime_max \<or>
                   \<not> total_seconds (now - last ts)
                       < of_int (interval_seconds self * gap_limit self)))) \<or>
            (\<exists>c s'. r = Inr (c, s') \<and> detector_inv self lo s'
                \<and> event_index s' = event_index s
                \<and> (c = Continue \<longleftrightarrow> event_index s < length evs)))"
proof (cases "event_index s \<ge> length evs")
  case False
  then show ?thesis using inv by (simp add: trailing_def)
next
  case True
  note lt = last_event_time[OF parsed ne]
  show ?thesis
  proof (cases "total_seconds (now - last ts) < of_int (interval_seconds self * gap_limit self)")
    case False
    then show ?thesis using True ne lt inv by (simp add: trailing_def)
  next
    case recent: True
    from trailing_loop_inv[OF v inv, of now] obtain r where
      r: "trailing_loop self now s = Some r"
      and c: "(r = Inl OverflowError \<and>
               \<not> (datetime_min \<le> lo \<and>
                  current_expected s + timedelta_seconds (interval_seconds self) \<le> datetime_max \<and>
                  now + timedelta_seconds (interval_seconds self) \<le> datetime_max)) \<or>
            (\<exists>s'. r = Inr s' \<and> detector_inv self lo s' \<and> event_index s' = event_index s
                    \<and> length (alerts s) \<le> length (alerts s'))"
      by blast
    from c show ?thesis
    proof
      assume "r = Inl OverflowError \<and>
               \<not> (datetime_min \<le> lo \<and>
                  current_expected s + timedelta_seconds (interval_seconds self) \<le> datetime_max \<and>
                  now + timedelta_seconds (interval_seconds self) \<le> datetime_max)"
      then show ?thesis using r True ne lt recent by (auto simp add: trailing_def)
    next
      assume "\<exists>s'. r = Inr s' \<and> detector_inv self lo s' \<and> event_index s' = event_index s
                    \<and> length (alerts s) \<le> length (alerts s')"
      then show ?thesis using r True ne lt recent by (auto simp add: trailing_def)
    qed
  qed
qed


lemma slot_spec:
  assumes v: "valid_config self"
    and parsed: "map (event_time self P) evs = map Inr ts"
    and ne: "evs \<noteq> []"
    and idx: "event_index s \<le> length evs"
    and inv: "detector_inv self lo s"
    and bounded: "\<exists>t \<in> set ts. current_expected s \<le> t"
  shows "\<exists>r. slot self P now evs s
                (current_expected s + timedelta_seconds (interval_seconds self)) = Some r \<and>
           ((r = Inl OverflowError \<and> \<not> (datetime_min \<le> lo \<and> clock_in_range self ts now)) \<or>
            (\<exists>c s'. r = Inr (c, s') \<and> detector_inv self lo s'
               \<and> event_index s \<le> event_index s' \<and> event_index s' \<le> length evs
               \<and> (c = Continue \<longrightarrow> event_index s' < length evs
                     \<and> (\<exists>t \<in> set ts. current_expected s' \<le> t)
                     \<and> (event_index s < event_index s'
                          \<or> nat (ts ! event_index s' - current_expected s')
                               < nat (ts ! event_index s - current_expected s)))))"
proof -
  let ?I = "timedelta_seconds (interval_seconds self)"
  let ?adv = "s\<lparr>current_expected := current_expected s + ?I\<rparr>"
  have Ipos: "0 < ?I" using v by (simp add: valid_config_def timedelta_seconds_def)
  have len: "length ts = length evs" using parsed by (metis length_map)
  have I3600: "0 \<le> interval_seconds self" "interval_seconds self \<le> 3600"
    using v by (simp_all add: valid_config_def)
  note tol = valid_config_tol[OF v]
  from inner_scan_spec[OF parsed tol, of ?adv] obtain found s1 where
    scan: "inner_scan self P evs ?adv = Inr (found, s1)"
    and i1: "event_index s \<le> event_index s1" "event_index s1 \<le> length evs"
    and a1: "alerts s1 = alerts s" "resyncs s1 = resyncs s"
    and hit: "found \<Longrightarrow> event_index s < event_index s1 \<and> consecutive_misses s1 = 0
                \<and> current_expected s1 = ts ! (event_index s1 - 1)
                \<and> \<bar>total_seconds (current_expected s1 - (current_expected s + ?I))\<bar>
                      \<le> tolerance_seconds self"
    and miss: "\<not> found \<Longrightarrow> current_expected s1 = current_expected s + ?I
                \<and> consecutive_misses s1 = consecutive_misses s
                \<and> (event_index s1 < length evs \<longrightarrow>
                      total_seconds (ts ! event_index s1 - (current_expected s + ?I))
                        > tolerance_seconds self)"
    using idx by (auto simp: max_def)
  let ?cnt = "count_miss self found s1"
  have i2: "event_index ?cnt = event_index s1"
    by (simp add: count_miss_def Let_def)
  have inv2: "detector_inv self lo ?cnt"
  proof (cases found)
    case True
    from hit[OF True] total_seconds_lower[OF _ valid_config_tol_le[OF v] I3600]
    have "- ?I \<le> current_expected s1 - (current_expected s + ?I)" by blast
    then have "current_expected s \<le> current_expected s1" by simp
    then show ?thesis using True hit[OF True] inv a1 v
      by (auto simp: count_miss_def detector_inv_def valid_config_def)
  next
    case False
    then show ?thesis using miss[OF False] inv a1 Ipos
      by (auto simp: count_miss_def detector_inv_def Let_def sorted_wrt_append)
  qed
  have ce2: "\<exists>t \<in> set ts. current_expected ?cnt \<le> t + ?I"
  proof (cases found)
    case True
    have "event_index s1 - 1 < length ts" using hit[OF True] i1 len by linarith
    then have "ts ! (event_index s1 - 1) \<in> set ts" by (rule nth_mem)
    moreover have "current_expected ?cnt \<le> ts ! (event_index s1 - 1) + ?I"
      using True hit[OF True] Ipos by (simp add: count_miss_def)
    ultimately show ?thesis by blast
  next
    case False
    then show ?thesis using miss[OF False] bounded by (auto simp: count_miss_def Let_def)
  qed
  from trailing_spec[OF v parsed ne inv2, of now] obtain r where
    t: "trailing self P now evs ?cnt = Some r"
    and c: "(r = Inl OverflowError \<and>
               \<not> (datetime_min \<le> lo \<and> current_expected ?cnt + ?I \<le> datetime_max \<and>
                  (now + ?I \<le> datetime_max \<or>
                   \<not> total_seconds (now - last ts)
                       < of_int (interval_seconds self * gap_limit self)))) \<or>
            (\<exists>c s'. r = Inr (c, s') \<and> detector_inv self lo s'
                \<and> event_index s' = event_index ?cnt
                \<and> (c = Continue \<longleftrightarrow> event_index ?cnt < length evs))"
    by blast
  have run: "slot self P now evs s (current_expected s + ?I) = Some r"
    using scan t by (simp add: slot_def)
  from c show ?thesis
  proof
    assume o: "r = Inl OverflowError \<and>
               \<not> (datetime_min \<le> lo \<and> current_expected ?cnt + ?I \<le> datetime_max \<and>
                  (now + ?I \<le> datetime_max \<or>
                   \<not> total_seconds (now - last ts)
                       < of_int (interval_seconds self * gap_limit self)))"
    have "\<not> (datetime_min \<le> lo \<and> clock_in_range self ts now)"
    proof
      assume safe: "datetime_min \<le> lo \<and> clock_in_range self ts now"
      from ce2 obtain t where "t \<in> set ts" "current_expected ?cnt \<le> t + ?I" by blast
      moreover have "t + 2 * ?I \<le> datetime_max"
        using safe \<open>t \<in> set ts\<close> by (simp add: clock_in_range_def list_all_iff)
      ultimately have "current_expected ?cnt + ?I \<le> datetime_max" by simp
      then show False using o safe by (simp add: clock_in_range_def list_all_iff)
    qed
    then show ?thesis using run o by simp
  next
    assume "\<exists>c s'. r = Inr (c, s') \<and> detector_inv self lo s'
                \<and> event_index s' = event_index ?cnt
                \<and> (c = Continue \<longleftrightarrow> event_index ?cnt < length evs)"
    then obtain c s' where
      r: "r = Inr (c, s')" and inv': "detector_inv self lo s'"
      and i3: "event_index s' = event_index ?cnt"
      and cc: "c = Continue \<longleftrightarrow> event_index ?cnt < length evs"
      by blast
    have progress: "(\<exists>t \<in> set ts. current_expected s' \<le> t)
                    \<and> (event_index s < event_index s'
                          \<or> nat (ts ! event_index s' - current_expected s')
                               < nat (ts ! event_index s - current_expected s))"
      if cont: "c = Continue"
    proof -
      have same: "s' = ?cnt" using t r cont cc by (simp add: trailing_def)
      show ?thesis
      proof (cases found)
        case True
        have "event_index s1 - 1 < length ts" using hit[OF True] i1 len by linarith
        then have "ts ! (event_index s1 - 1) \<in> set ts" by (rule nth_mem)
        moreover have "current_expected s' \<le> ts ! (event_index s1 - 1)"
          using True hit[OF True] same by (simp add: count_miss_def)
        ultimately have "\<exists>t \<in> set ts. current_expected s' \<le> t" by blast
        moreover have "event_index s < event_index s'"
          using True hit[OF True] i3 i2 by simp
        ultimately show ?thesis by blast
      next
        case False
        have ce: "current_expected s' = current_expected s + ?I"
          using same miss[OF False] by (simp add: count_miss_def Let_def)
        have lt: "event_index s1 < length evs" using cont cc i2 by simp
        with miss[OF False] tol
        have "0 < total_seconds (ts ! event_index s1 - (current_expected s + ?I))" by linarith
        then have pos: "0 < ts ! event_index s1 - (current_expected s + ?I)"
          by (rule total_seconds_pos)
        have "ts ! event_index s1 \<in> set ts" using lt len by simp
        moreover have "current_expected s' \<le> ts ! event_index s1" using pos ce by simp
        ultimately have b: "\<exists>t \<in> set ts. current_expected s' \<le> t" by blast
        show ?thesis
        proof (cases "event_index s < event_index s'")
          case True then show ?thesis using b by simp
        next
          case False
          then have "event_index s' = event_index s" "event_index s1 = event_index s"
            using i1 i3 i2 by simp_all
          then show ?thesis using pos ce Ipos b by simp
        qed
      qed
    qed
    show ?thesis using run r inv' i3 cc i1 i2 progress by auto
  qed
qed

lemma loop_body_spec:
  assumes v: "valid_config self"
    and parsed: "map (event_time self P) evs = map Inr ts"
    and ne: "evs \<noteq> []"
    and idx: "event_index s \<le> length evs"
    and inv: "detector_inv self lo s"
    and bounded: "\<exists>t \<in> set ts. current_expected s \<le> t"
  shows "\<exists>r. loop_body self P now evs s = Some r \<and>
           ((r = Inl OverflowError \<and> \<not> (datetime_min \<le> lo \<and> clock_in_range self ts now)) \<or>
            (\<exists>c s'. r = Inr (c, s') \<and> detector_inv self lo s'
               \<and> event_index s \<le> event_index s' \<and> event_index s' \<le> length evs
               \<and> (c = Continue \<longrightarrow> event_index s' < length evs
                     \<and> (\<exists>t \<in> set ts. current_expected s' \<le> t)
                     \<and> (event_index s < event_index s'
                          \<or> nat (ts ! event_index s' - current_expected s')
                               < nat (ts ! event_index s - current_expected s)))))"
proof (cases "current_expected s" "timedelta_seconds (interval_seconds self)"
         rule: datetime_add_cases)
  case overflow
  let ?I = "timedelta_seconds (interval_seconds self)"
  have Ipos: "0 < ?I" using v by (simp add: valid_config_def timedelta_seconds_def)
  have lo: "lo \<le> current_expected s" using inv by (simp add: detector_inv_def)
  have "\<not> (datetime_min \<le> lo \<and> clock_in_range self ts now)"
  proof
    assume safe: "datetime_min \<le> lo \<and> clock_in_range self ts now"
    from bounded obtain t where "t \<in> set ts" "current_expected s \<le> t" by blast
    moreover have "t + 2 * ?I \<le> datetime_max"
      using safe \<open>t \<in> set ts\<close> by (simp add: clock_in_range_def list_all_iff)
    ultimately have "current_expected s + ?I \<le> datetime_max" using Ipos by simp
    moreover have "datetime_min \<le> current_expected s + ?I" using safe lo Ipos by simp
    ultimately show False using overflow(2) by simp
  qed
  moreover have "loop_body self P now evs s = Some (Inl OverflowError)"
    using overflow(1) by (simp add: loop_body_def)
  ultimately show ?thesis by simp
next
  case ok
  have "loop_body self P now evs s
          = slot self P now evs s
              (current_expected s + timedelta_seconds (interval_seconds self))"
    using large_gap_never[OF v] ok(1) by (simp add: loop_body_def)
  then show ?thesis using slot_spec[OF v parsed ne idx inv bounded, of now] by simp
qed

lemma main_loop_inv:
  assumes v: "valid_config self"
    and parsed: "map (event_time self P) evs = map Inr ts"
    and ne: "evs \<noteq> []"
    and idx: "event_index s \<le> length evs"
    and inv: "detector_inv self lo s"
    and bounded: "\<exists>t \<in> set ts. current_expected s \<le> t"
  shows "\<exists>r. main_loop self P now evs s = Some r \<and>
           ((r = Inl OverflowError \<and> \<not> (datetime_min \<le> lo \<and> clock_in_range self ts now)) \<or>
            (\<exists>s'. r = Inr s' \<and> detector_inv self lo s'))"
proof -
  have wf: "wf (measures [\<lambda>s. length evs - event_index s,
                          \<lambda>s. nat (ts ! event_index s - current_expected s)])"
    by simp
  show ?thesis using idx inv bounded
  proof (induction s rule: wf_induct_rule[OF wf])
    case (1 s)
    from loop_body_spec[OF v parsed ne "1.prems", of now] obtain r where
      b: "loop_body self P now evs s = Some r"
      and c: "(r = Inl OverflowError \<and> \<not> (datetime_min \<le> lo \<and> clock_in_range self ts now)) \<or>
            (\<exists>c s'. r = Inr (c, s') \<and> detector_inv self lo s'
               \<and> event_index s \<le> event_index s' \<and> event_index s' \<le> length evs
               \<and> (c = Continue \<longrightarrow> event_index s' < length evs
                     \<and> (\<exists>t \<in> set ts. current_expected s' \<le> t)
                     \<and> (event_index s < event_index s'
                          \<or> nat (ts ! event_index s' - current_expected s')
                               < nat (ts ! event_index s - current_expected s))))"
      by blast
    from c show ?case
    proof
      assume "r = Inl OverflowError \<and> \<not> (datetime_min \<le> lo \<and> clock_in_range self ts now)"
      then show ?thesis using b "1.prems"(1) by (subst main_loop.simps) simp
    next
      assume "\<exists>c s'. r = Inr (c, s') \<and> detector_inv self lo s'
               \<and> event_index s \<le> event_index s' \<and> event_index s' \<le> length evs
               \<and> (c = Continue \<longrightarrow> event_index s' < length evs
                     \<and> (\<exists>t \<in> set ts. current_expected s' \<le> t)
                     \<and> (event_index s < event_index s'
                          \<or> nat (ts ! event_index s' - current_expected s')
                               < nat (ts ! event_index s - current_expected s)))"
      then obtain c s' where r: "r = Inr (c, s')"
        and inv': "detector_inv self lo s'"
        and i: "event_index s \<le> event_index s'" "event_index s' \<le> length evs"
        and cont: "c = Continue \<Longrightarrow> event_index s' < length evs
                     \<and> (\<exists>t \<in> set ts. current_expected s' \<le> t)
                     \<and> (event_index s < event_index s'
                          \<or> nat (ts ! event_index s' - current_expected s')
                               < nat (ts ! event_index s - current_expected s))"
        by blast
      show ?thesis
      proof (cases c)
        case Break
        then show ?thesis using b r inv' "1.prems"(1) by (subst main_loop.simps) simp
      next
        case Continue
        have eq: "main_loop self P now evs s = main_loop self P now evs s'"
          using b r Continue "1.prems"(1) by (subst main_loop.simps) simp
        have "(s', s) \<in> measures [\<lambda>s. length evs - event_index s,
                                    \<lambda>s. nat (ts ! event_index s - current_expected s)]"
          using cont[OF Continue] i by auto
        from "1.IH"[OF this i(2) inv'] cont[OF Continue] show ?thesis unfolding eq by blast
      qed
    qed
  qed
qed

lemma detect_run_inv:
  assumes v: "valid_config self"
    and parsed: "map (event_time self P) evs = map Inr ts"
  shows "\<exists>r. detect_run self P now evs = Some r \<and>
           ((r = Inl OverflowError \<and> \<not> clock_in_range self ts now) \<or>
            (\<exists>al. r = Inr (al, 0) \<and> sorted_wrt (<) al
               \<and> (\<forall>a \<in> set al. ts ! 0 + timedelta_seconds (interval_seconds self) \<le> a)))"
proof (cases "evs = []")
  case True
  then show ?thesis by (simp add: detect_run_def)
next
  case False
  let ?s = "\<lparr>current_expected = ts ! 0, consecutive_misses = 0, event_index = 1, alerts = [],
             resyncs = 0\<rparr>"
  have len: "length ts = length evs" using parsed by (metis length_map)
  then have mem: "ts ! 0 \<in> set ts" using False by (cases ts) auto
  have first: "event_time self P (evs ! 0) = Inr (ts ! 0)"
    using event_time_nth[OF parsed] False by simp
  have "detector_inv self (ts ! 0) ?s" using v by (simp add: detector_inv_def valid_config_def)
  moreover have "event_index ?s \<le> length evs" using False by (cases evs) simp_all
  moreover have "\<exists>t \<in> set ts. current_expected ?s \<le> t" using mem by auto
  ultimately obtain r where
    m: "main_loop self P now evs ?s = Some r"
    and c: "(r = Inl OverflowError \<and>
               \<not> (datetime_min \<le> ts ! 0 \<and> clock_in_range self ts now)) \<or>
            (\<exists>s'. r = Inr s' \<and> detector_inv self (ts ! 0) s')"
    using main_loop_inv[OF v parsed False, of ?s "ts ! 0" now] by blast
  from c show ?thesis
  proof
    assume o: "r = Inl OverflowError \<and>
               \<not> (datetime_min \<le> ts ! 0 \<and> clock_in_range self ts now)"
    have "clock_in_range self ts now \<Longrightarrow> datetime_min \<le> ts ! 0"
      using mem by (simp add: clock_in_range_def list_all_iff)
    then show ?thesis using o m False first by (auto simp add: detect_run_def)
  next
    assume "\<exists>s'. r = Inr s' \<and> detector_inv self (ts ! 0) s'"
    then show ?thesis using m False first by (auto simp add: detect_run_def detector_inv_def)
  qed
qed

subsection \<open>Sample data\<close>

lemma sample_floats:
  "round_double (1 / 10) = 3602879701896397 / 36028797018963968"
  "round_double (54043195528445955 / 9007199254740992) = 6"
  "round_double (7 / 10) = 3152519739159347 / 4503599627370496"
  "round_double (9457559217478041 / 4503599627370496) = 1182194902184755 / 562949953421312"
  by code_simp+

lemma valid_default_monitor: "valid_config default_monitor"
  by (simp add: valid_config_def default_monitor_def sample_floats)

lemma valid_tight_monitor: "valid_config tight_monitor"
  by (simp add: valid_config_def tight_monitor_def sample_floats)

lemma sample_parse:
  "parse_timestamp self sample_fromisoformat (PStr ''2025-08-04T10:00:00Z'') = Some 1754301600000000"
  "parse_timestamp self sample_fromisoformat (PStr ''2025-08-04T10:00:03Z'') = Some 1754301603000000"
  "parse_timestamp self sample_fromisoformat (PStr ''2025-08-04T10:01:00Z'') = Some 1754301660000000"
  "parse_timestamp self sample_fromisoformat (PStr ''2025-08-04T10:02:00Z'') = Some 1754301720000000"
  "parse_timestamp self sample_fromisoformat (PStr ''2025-08-04T12:00:00Z'') = Some 1754308800000000"
  "parse_timestamp self sample_fromisoformat (PStr ''9999-12-31T23:59:30Z'') = Some 253402300770000000"
  by (simp_all add: parse_timestamp_def py_strip_def py_isspace_def sample_fromisoformat_def)

lemma sample_event_time:
  "event_time self sample_fromisoformat (heartbeat n ''2025-08-04T10:00:00Z'') = Inr 1754301600000000"
  "event_time self sample_fromisoformat (heartbeat n ''2025-08-04T10:00:03Z'') = Inr 1754301603000000"
  "event_time self sample_fromisoformat (heartbeat n ''2025-08-04T10:01:00Z'') = Inr 1754301660000000"
  "event_time self sample_fromisoformat (heartbeat n ''2025-08-04T10:02:00Z'') = Inr 1754301720000000"
  "event_time self sample_fromisoformat (heartbeat n ''2025-08-04T12:00:00Z'') = Inr 1754308800000000"
  "event_time self sample_fromisoformat (heartbeat n ''9999-12-31T23:59:30Z'') = Inr 253402300770000000"
  by (simp_all add: event_time_def heartbeat_def sample_parse)

subsection \<open>Construction\<close>

text \<open>
  C7. Constructing a HeartbeatMonitor fails with a configuration error (\<^verbatim>\<open>ValueError\<close>) if
  and only if some field is outside its range: \<open>interval_seconds\<close> not in 1..3600,
  \<open>allowed_misses\<close> not in 1..10, \<open>tolerance\<close> outside [0, 1], \<open>future_limit < 0\<close> or
  \<open>gap_limit < 1\<close>. When every field is in range the construction succeeds and stores the
  fields, with \<open>tolerance_seconds\<close> the rounded product of the interval and the
  tolerance, and every monitor that a construction returns has a valid configuration, so
  no detection runs with invalid parameters.
\<close>

theorem init_error_iff_out_of_range:
  "((\<exists>msg. init i am tol fl gl = Inl (ValueError msg)) \<longleftrightarrow>
      \<not> (1 \<le> i \<and> i \<le> 3600 \<and> 1 \<le> am \<and> am \<le> 10 \<and> 0 \<le> tol \<and> tol \<le> 1 \<and> 0 \<le> fl \<and> 1 \<le> gl)) \<and>
   (1 \<le> i \<and> i \<le> 3600 \<and> 1 \<le> am \<and> am \<le> 10 \<and> 0 \<le> tol \<and> tol \<le> 1 \<and> 0 \<le> fl \<and> 1 \<le> gl \<longrightarrow>
      init i am tol fl gl =
        Inr \<lparr> interval_seconds = i, allowed_misses = am, tolerance = tol, future_limit = fl,
              gap_limit = gl, tolerance_seconds = round_double (of_int i * tol) \<rparr>) \<and>
   (\<forall>self. init i am tol fl gl = Inr self \<longrightarrow> valid_config self)"
  by (auto simp add: init_def valid_config_def split: if_splits)

theorem init_error_iff_out_of_range_witness:
  "init 60 3 (round_double (1 / 10)) 300 10 = Inr default_monitor \<and>
   valid_config default_monitor \<and>
   \<not> (\<exists>msg. init 60 3 (round_double (1 / 10)) 300 10 = Inl (ValueError msg)) \<and>
   (\<exists>msg. init 3601 3 (round_double (1 / 10)) 300 10 = Inl (ValueError msg))"
  using init_error_iff_out_of_range [of 60 3 "round_double (1 / 10)" 300 10]
    init_error_iff_out_of_range [of 3601 3 "round_double (1 / 10)" 300 10]
  by (simp add: default_monitor_def sample_floats)

subsection \<open>Validation\<close>

lemma parse_timestamp_self: "parse_timestamp self P v = parse_timestamp self' P v"
  by (simp add: parse_timestamp_def)

text \<open>
  C8. For every record and every current time, the decision of \<open>validate_event\<close> is the
  same for any two values of \<open>future_limit\<close>; and a record that satisfies the structural
  rules (a dict whose service is a str, not blank and at most 100 characters after
  stripping, and whose timestamp parses to an instant \<open>t\<close>) is rejected if and only if
  \<open>t\<close> is more than 24 hours after the current time.
\<close>

theorem validate_event_future_limit_inert:
  "validate_event (self\<lparr>future_limit := a\<rparr>) P now event
     = validate_event (self\<lparr>future_limit := b\<rparr>) P now event \<and>
   (event = PDict kvs \<and> map_of kvs ''service'' = Some (PStr sv) \<and> py_strip sv \<noteq> [] \<and>
    length (py_strip sv) \<le> 100 \<and> map_of kvs ''timestamp'' = Some tsv \<and>
    parse_timestamp self P tsv = Some t \<longrightarrow>
      ((\<not> validate_event self P now event) \<longleftrightarrow> t > now + timedelta_hours 24))"
  by (auto simp add: validate_event_def Let_def
        parse_timestamp_self[of "self\<lparr>future_limit := a\<rparr>" P _ self]
        parse_timestamp_self[of "self\<lparr>future_limit := b\<rparr>" P _ self]
      split: option.splits pyval.splits)

theorem validate_event_future_limit_inert_witness:
  "validate_event (default_monitor\<lparr>future_limit := 0\<rparr>) sample_fromisoformat 1754200000000000
       (heartbeat ''email'' ''2025-08-04T10:00:00Z'')
     = validate_event (default_monitor\<lparr>future_limit := 300\<rparr>) sample_fromisoformat 1754200000000000
         (heartbeat ''email'' ''2025-08-04T10:00:00Z'') \<and>
   \<not> validate_event default_monitor sample_fromisoformat 1754200000000000
       (heartbeat ''email'' ''2025-08-04T10:00:00Z'') \<and>
   (1754301600000000::int) > 1754200000000000 + timedelta_hours 24 \<and>
   validate_event default_monitor sample_fromisoformat 1754301600000000
       (heartbeat ''email'' ''2025-08-04T10:00:00Z'')"
proof -
  have s: "py_strip ''email'' = ''email''" by (simp add: py_strip_def py_isspace_def)
  show ?thesis
    using validate_event_future_limit_inert
      [where self = default_monitor and a = 0 and b = 300 and P = sample_fromisoformat
         and now = 1754200000000000 and event = "heartbeat ''email'' ''2025-08-04T10:00:00Z''"
         and kvs = "[(''service'', PStr ''email''), (''timestamp'', PStr ''2025-08-04T10:00:00Z'')]"
         and sv = "''email''" and tsv = "PStr ''2025-08-04T10:00:00Z''" and t = 1754301600000000]
      validate_event_future_limit_inert
      [where self = default_monitor and a = 0 and b = 300 and P = sample_fromisoformat
         and now = 1754301600000000 and event = "heartbeat ''email'' ''2025-08-04T10:00:00Z''"
         and kvs = "[(''service'', PStr ''email''), (''timestamp'', PStr ''2025-08-04T10:00:00Z'')]"
         and sv = "''email''" and tsv = "PStr ''2025-08-04T10:00:00Z''" and t = 1754301600000000]
    by (simp add: heartbeat_def s sample_parse timedelta_hours_def)
qed

subsection \<open>The large-gap branch\<close>

text \<open>
  C2. For every configuration with \<open>gap_limit \<ge> 1\<close> and a non-negative interval (of a size
  that \<^verbatim>\<open>timedelta\<close> accepts) the guard \<^verbatim>\<open>gap_seconds > max_gap\<close> of the large-gap
  resynchronisation is false at every value of the expected clock, so no run enters the
  branch; and for every valid configuration, every timeline and every current time,
  \<open>detect_missed_heartbeats\<close> terminates, and where it returns, the counter of the
  executions of the branch is 0 (otherwise it has raised \<^verbatim>\<open>OverflowError\<close>, the expected
  clock having left the range of a datetime).
\<close>

theorem large_gap_branch_unreachable:
  assumes "0 \<le> interval_seconds self" and "interval_seconds self \<le> 86399999999999"
    and "1 \<le> gap_limit self"
  shows "\<not> large_gap self ce \<and>
         (valid_config self \<and> map (event_time self P) evs = map Inr ts \<longrightarrow>
            (\<exists>r. detect_run self P now evs = Some r \<and>
               ((r = Inl OverflowError \<and> \<not> clock_in_range self ts now) \<or>
                (\<exists>al. r = Inr (al, 0)))))"
proof -
  have "\<bar>interval_seconds self\<bar> < 2 ^ 53" using assms(1,2) by simp
  from total_seconds_whole[OF this]
  have g: "total_seconds (timedelta_seconds (interval_seconds self)) = of_int (interval_seconds self)" .
  have "(1::rat) \<le> of_int (gap_limit self)" "(0::rat) \<le> of_int (interval_seconds self)"
    using assms by simp_all
  then have "of_int (interval_seconds self) * (1::rat)
               \<le> of_int (interval_seconds self) * of_int (gap_limit self)"
    by (rule_tac mult_left_mono)
  then have "\<not> large_gap self ce" by (simp add: large_gap_def Let_def g)
  moreover have "\<exists>r. detect_run self P now evs = Some r \<and>
               ((r = Inl OverflowError \<and> \<not> clock_in_range self ts now) \<or>
                (\<exists>al. r = Inr (al, 0)))"
    if "valid_config self" "map (event_time self P) evs = map Inr ts"
    using detect_run_inv[OF that, of now] by blast
  ultimately show ?thesis by blast
qed

theorem large_gap_branch_unreachable_witness:
  "0 \<le> interval_seconds default_monitor \<and> interval_seconds default_monitor \<le> 86399999999999 \<and>
   1 \<le> gap_limit default_monitor \<and>
   valid_config default_monitor \<and>
   map (event_time default_monitor sample_fromisoformat)
     [heartbeat ''restart'' ''2025-08-04T10:00:00Z'', heartbeat ''restart'' ''2025-08-04T10:02:00Z'']
     = map Inr [1754301600000000, 1754301720000000] \<and>
   \<not> large_gap default_monitor 1754301600000000 \<and>
   detect_run default_monitor sample_fromisoformat 1800000000000000
     [heartbeat ''restart'' ''2025-08-04T10:00:00Z'',
      heartbeat ''restart'' ''2025-08-04T10:02:00Z''] = Some (Inr ([], 0))"
proof -
  have a: "0 \<le> interval_seconds default_monitor"
    "interval_seconds default_monitor \<le> 86399999999999" "1 \<le> gap_limit default_monitor"
    by (simp_all add: default_monitor_def)
  have p: "map (event_time default_monitor sample_fromisoformat)
     [heartbeat ''restart'' ''2025-08-04T10:00:00Z'', heartbeat ''restart'' ''2025-08-04T10:02:00Z'']
     = map Inr [1754301600000000, 1754301720000000]"
    by (simp add: sample_event_time)
  have e: "detect_run default_monitor sample_fromisoformat 1800000000000000
     [heartbeat ''restart'' ''2025-08-04T10:00:00Z'',
      heartbeat ''restart'' ''2025-08-04T10:02:00Z''] = Some (Inr ([], 0))"
    by code_simp
  show ?thesis
    using large_gap_branch_unreachable[OF a, where ce = 1754301600000000
        and P = sample_fromisoformat and now = 1800000000000000
        and evs = "[heartbeat ''restart'' ''2025-08-04T10:00:00Z'',
                    heartbeat ''restart'' ''2025-08-04T10:02:00Z'']"
        and ts = "[1754301600000000, 1754301720000000]"]
      a p e valid_default_monitor by blast
qed

subsection \<open>Termination\<close>

lemma detect_missed_heartbeats_inv:
  assumes v: "valid_config self"
    and parsed: "map (event_time self P) evs = map Inr ts"
  shows "\<exists>r. detect_missed_heartbeats self P now evs = Some r \<and>
           ((r = Inl OverflowError \<and> \<not> clock_in_range self ts now) \<or>
            (\<exists>al. r = Inr al \<and> sorted_wrt (<) al
               \<and> (\<forall>a \<in> set al. ts ! 0 + timedelta_seconds (interval_seconds self) \<le> a)))"
proof -
  from detect_run_inv[OF v parsed, of now] obtain r where
    r: "detect_run self P now evs = Some r"
    and c: "(r = Inl OverflowError \<and> \<not> clock_in_range self ts now) \<or>
            (\<exists>al. r = Inr (al, 0) \<and> sorted_wrt (<) al
               \<and> (\<forall>a \<in> set al. ts ! 0 + timedelta_seconds (interval_seconds self) \<le> a))"
    by blast
  from c show ?thesis
  proof
    assume "r = Inl OverflowError \<and> \<not> clock_in_range self ts now"
    then show ?thesis using r by (simp add: detect_missed_heartbeats_def)
  next
    assume "\<exists>al. r = Inr (al, 0) \<and> sorted_wrt (<) al
               \<and> (\<forall>a \<in> set al. ts ! 0 + timedelta_seconds (interval_seconds self) \<le> a)"
    then show ?thesis using r by (auto simp add: detect_missed_heartbeats_def)
  qed
qed

lemma scenario_C_in_range:
  "clock_in_range default_monitor [1754301600000000, 1754308800000000] now"
proof (cases "now + timedelta_seconds (interval_seconds default_monitor) \<le> datetime_max")
  case True
  then show ?thesis
    by (simp add: clock_in_range_def default_monitor_def timedelta_seconds_def
        datetime_min_def datetime_max_def)
next
  case False
  then have "timedelta_seconds 600 \<le> now - 1754308800000000"
    by (simp add: default_monitor_def timedelta_seconds_def datetime_max_def)
  from total_seconds_mono[OF this]
  have "600 \<le> total_seconds (now - 1754308800000000)"
    using total_seconds_whole[of 600] by simp
  then show ?thesis
    by (simp add: clock_in_range_def default_monitor_def timedelta_seconds_def
        datetime_min_def datetime_max_def)
qed

text \<open>
  C3 (amended). For every finite timeline (a list of records whose timestamps parse),
  every valid configuration and every current time, \<open>detect_missed_heartbeats\<close>
  terminates: it returns a list, or it raises \<^verbatim>\<open>OverflowError\<close> because the expected clock
  would pass \<^verbatim>\<open>datetime.max\<close>. It returns a list whenever every instant of the timeline
  is a datetime at least two intervals before \<^verbatim>\<open>datetime.max\<close> and the current time is
  at least one interval before \<^verbatim>\<open>datetime.max\<close> or the service is stale; in particular it
  returns a list on the input of Scenario C (two events two hours apart, interval 60 s,
  gap limit 10, allowed misses 3) at every current time.
\<close>

theorem detect_missed_heartbeats_terminates:
  "(valid_config self \<and> map (event_time self P) evs = map Inr ts \<longrightarrow>
      (\<exists>r. detect_missed_heartbeats self P now evs = Some r \<and>
         (r = Inl OverflowError \<or> (\<exists>al. r = Inr al)))) \<and>
   (valid_config self \<and> map (event_time self P) evs = map Inr ts \<and>
    clock_in_range self ts now \<longrightarrow>
      (\<exists>al. detect_missed_heartbeats self P now evs = Some (Inr al))) \<and>
   (\<exists>al. detect_missed_heartbeats default_monitor sample_fromisoformat now'
            [heartbeat ''restart'' ''2025-08-04T10:00:00Z'',
             heartbeat ''restart'' ''2025-08-04T12:00:00Z''] = Some (Inr al))"
proof -
  have gen: "\<exists>r. detect_missed_heartbeats self P now evs = Some r \<and>
         (r = Inl OverflowError \<or> (\<exists>al. r = Inr al))"
    if "valid_config self" "map (event_time self P) evs = map Inr ts"
    using detect_missed_heartbeats_inv[OF that, of now] by blast
  have safe: "\<exists>al. detect_missed_heartbeats self P now evs = Some (Inr al)"
    if "valid_config self" "map (event_time self P) evs = map Inr ts"
      "clock_in_range self ts now" for self P now evs ts
    using detect_missed_heartbeats_inv[OF that(1,2), of now] that(3) by blast
  have "map (event_time default_monitor sample_fromisoformat)
     [heartbeat ''restart'' ''2025-08-04T10:00:00Z'', heartbeat ''restart'' ''2025-08-04T12:00:00Z'']
     = map Inr [1754301600000000, 1754308800000000]"
    by (simp add: sample_event_time)
  from safe[OF valid_default_monitor this scenario_C_in_range] gen safe show ?thesis by blast
qed

theorem detect_missed_heartbeats_terminates_witness:
  "valid_config default_monitor \<and>
   map (event_time default_monitor sample_fromisoformat)
     [heartbeat ''restart'' ''2025-08-04T10:00:00Z'', heartbeat ''restart'' ''2025-08-04T12:00:00Z'']
     = map Inr [1754301600000000, 1754308800000000] \<and>
   clock_in_range default_monitor [1754301600000000, 1754308800000000] 1754309000000000 \<and>
   (\<exists>al. detect_missed_heartbeats default_monitor sample_fromisoformat 1754309000000000
            [heartbeat ''restart'' ''2025-08-04T10:00:00Z'',
             heartbeat ''restart'' ''2025-08-04T12:00:00Z''] = Some (Inr al))"
  using detect_missed_heartbeats_terminates
    [where self = default_monitor and P = sample_fromisoformat
       and evs = "[heartbeat ''restart'' ''2025-08-04T10:00:00Z'',
                   heartbeat ''restart'' ''2025-08-04T12:00:00Z'']"
       and ts = "[1754301600000000, 1754308800000000]"
       and now = 1754309000000000 and now' = 1754309000000000]
    valid_default_monitor scenario_C_in_range[of 1754309000000000]
  by (simp add: sample_event_time)

theorem clock_overflow_counterexample:
  "valid_config default_monitor \<and>
   map (event_time default_monitor sample_fromisoformat)
     [heartbeat ''late'' ''9999-12-31T23:59:30Z''] = map Inr [253402300770000000] \<and>
   datetime_min \<le> 253402300770000000 \<and> 253402300770000000 \<le> datetime_max \<and>
   detect_missed_heartbeats default_monitor sample_fromisoformat 253402300780000000
     [heartbeat ''late'' ''9999-12-31T23:59:30Z''] = Some (Inl OverflowError)"
proof -
  have "detect_missed_heartbeats default_monitor sample_fromisoformat 253402300780000000
     [heartbeat ''late'' ''9999-12-31T23:59:30Z''] = Some (Inl OverflowError)"
    by code_simp
  then show ?thesis using valid_default_monitor
    by (simp add: sample_event_time datetime_min_def datetime_max_def)
qed

subsection \<open>Order of one service's alerts\<close>

text \<open>
  C10. For every timeline, every valid configuration and every current time,
  \<open>detect_missed_heartbeats\<close> terminates, and the alert instants that it returns for one
  service are strictly increasing: no two alerts share an instant and they are in
  chronological order. (Where it returns no list it has raised \<^verbatim>\<open>OverflowError\<close>, the
  expected clock having left the range of a datetime.)
\<close>

theorem detect_alerts_strictly_increasing:
  assumes "valid_config self" and "map (event_time self P) evs = map Inr ts"
  shows "\<exists>r. detect_missed_heartbeats self P now evs = Some r \<and>
           ((r = Inl OverflowError \<and> \<not> clock_in_range self ts now) \<or>
            (\<exists>al. r = Inr al \<and> sorted_wrt (<) al))"
  using detect_missed_heartbeats_inv[OF assms, of now] by blast

theorem detect_alerts_strictly_increasing_witness:
  "valid_config default_monitor \<and>
   map (event_time default_monitor sample_fromisoformat)
     [heartbeat ''api'' ''2025-08-04T10:00:00Z'', heartbeat ''api'' ''2025-08-04T10:01:00Z'',
      heartbeat ''api'' ''2025-08-04T10:02:00Z'']
     = map Inr [1754301600000000, 1754301660000000, 1754301720000000] \<and>
   detect_missed_heartbeats default_monitor sample_fromisoformat 1754302120000000
     [heartbeat ''api'' ''2025-08-04T10:00:00Z'', heartbeat ''api'' ''2025-08-04T10:01:00Z'',
      heartbeat ''api'' ''2025-08-04T10:02:00Z'']
     = Some (Inr [1754301900000000, 1754302080000000]) \<and>
   sorted_wrt (<) [1754301900000000, 1754302080000000 :: int]"
proof -
  have p: "map (event_time default_monitor sample_fromisoformat)
     [heartbeat ''api'' ''2025-08-04T10:00:00Z'', heartbeat ''api'' ''2025-08-04T10:01:00Z'',
      heartbeat ''api'' ''2025-08-04T10:02:00Z'']
     = map Inr [1754301600000000, 1754301660000000, 1754301720000000]"
    by (simp add: sample_event_time)
  have e: "detect_missed_heartbeats default_monitor sample_fromisoformat 1754302120000000
     [heartbeat ''api'' ''2025-08-04T10:00:00Z'', heartbeat ''api'' ''2025-08-04T10:01:00Z'',
      heartbeat ''api'' ''2025-08-04T10:02:00Z'']
     = Some (Inr [1754301900000000, 1754302080000000])"
    by code_simp
  from detect_alerts_strictly_increasing[OF valid_default_monitor p, of 1754302120000000]
  show ?thesis using valid_default_monitor p e by simp
qed

subsection \<open>On-time timelines\<close>

lemma timedelta_seconds_mult:
  "timedelta_seconds ((k + 1) * i) = timedelta_seconds i + timedelta_seconds (k * i)"
  by (simp add: timedelta_seconds_def algebra_simps)

lemma trailing_loop_quiet:
  assumes v: "valid_config self" and inv: "detector_inv self lo s"
  shows "\<exists>r. trailing_loop self now s = Some r \<and>
           (r = Inl OverflowError \<or>
            (\<exists>s'. r = Inr s' \<and>
               (alerts s' = alerts s \<longleftrightarrow>
                  total_seconds (now - (current_expected s
                     + timedelta_seconds ((allowed_misses self - consecutive_misses s)
                                            * interval_seconds self)))
                    \<le> tolerance_seconds self)))"
  using inv
proof (induction "nat (allowed_misses self - consecutive_misses s)" arbitrary: s rule: less_induct)
  case less
  let ?I = "timedelta_seconds (interval_seconds self)"
  let ?k = "allowed_misses self - consecutive_misses s"
  have I0: "0 \<le> interval_seconds self" and Ipos: "0 < ?I"
    using v by (simp_all add: valid_config_def timedelta_seconds_def)
  have lt: "consecutive_misses s < allowed_misses self"
    using less.prems by (simp add: detector_inv_def)
  have split: "timedelta_seconds (?k * interval_seconds self)
                 = ?I + timedelta_seconds ((?k - 1) * interval_seconds self)"
    using timedelta_seconds_mult[of "?k - 1" "interval_seconds self"] by simp
  have rest0: "0 \<le> timedelta_seconds ((?k - 1) * interval_seconds self)"
    using lt I0 by (simp add: timedelta_seconds_def)
  show ?case
  proof (cases "current_expected s" ?I rule: datetime_add_cases)
    case overflow
    have "trailing_loop self now s = Some (Inl OverflowError)"
      using lt overflow(1) by (subst trailing_loop.simps) simp
    then show ?thesis by simp
  next
    case ok
    let ?s1 = "s\<lparr>current_expected := current_expected s + ?I\<rparr>"
    show ?thesis
    proof (cases "total_seconds (now - current_expected ?s1) > tolerance_seconds self")
      case False
      have run: "trailing_loop self now s = Some (Inr ?s1)"
        using lt False ok(1) by (subst trailing_loop.simps) (simp add: Let_def)
      have "now - (current_expected s + timedelta_seconds (?k * interval_seconds self))
              \<le> now - current_expected ?s1"
        using split rest0 by simp
      from total_seconds_mono[OF this] False
      have "total_seconds (now - (current_expected s
                + timedelta_seconds (?k * interval_seconds self)))
              \<le> tolerance_seconds self" by linarith
      then show ?thesis using run by simp
    next
      case True
      let ?s2 = "?s1\<lparr>consecutive_misses := consecutive_misses ?s1 + 1\<rparr>"
      let ?s3 = "?s2\<lparr>alerts := alerts ?s2 @ [current_expected ?s2], consecutive_misses := 0\<rparr>"
      show ?thesis
      proof (cases "consecutive_misses ?s2 \<ge> allowed_misses self")
        case emit: True
        have eq: "trailing_loop self now s = trailing_loop self now ?s3"
          using lt True emit ok(1) by (subst trailing_loop.simps) (simp add: Let_def)
        have inv3: "detector_inv self lo ?s3"
          using less.prems v Ipos
          by (auto simp: detector_inv_def sorted_wrt_append valid_config_def)
        from trailing_loop_inv[OF v inv3, of now] obtain r where
          r: "trailing_loop self now ?s3 = Some r"
          and c: "r = Inl OverflowError \<or>
                  (\<exists>s'. r = Inr s' \<and> length (alerts ?s3) \<le> length (alerts s'))"
          by blast
        have "?k = 1" using emit lt by simp
        then have "\<not> total_seconds (now - (current_expected s
                       + timedelta_seconds (?k * interval_seconds self)))
                     \<le> tolerance_seconds self"
          using True by simp
        moreover have "alerts s' \<noteq> alerts s" if "length (alerts ?s3) \<le> length (alerts s')" for s'
          using that by auto
        ultimately show ?thesis using r c unfolding eq by auto
      next
        case False
        have eq: "trailing_loop self now s = trailing_loop self now ?s2"
          using lt True False ok(1) by (subst trailing_loop.simps) (simp add: Let_def)
        have inv2: "detector_inv self lo ?s2"
          using less.prems Ipos False by (auto simp: detector_inv_def)
        have m: "nat (allowed_misses self - consecutive_misses ?s2)
                   < nat (allowed_misses self - consecutive_misses s)"
          using lt by simp
        have same: "current_expected ?s2
                      + timedelta_seconds ((allowed_misses self - consecutive_misses ?s2)
                                             * interval_seconds self)
                   = current_expected s + timedelta_seconds (?k * interval_seconds self)"
          using split by (simp add: algebra_simps)
        from less.hyps[OF m inv2] show ?thesis unfolding eq same by simp
      qed
    qed
  qed
qed

lemma spaced_nth:
  "spaced d ts \<Longrightarrow> Suc i < length ts \<Longrightarrow> ts ! Suc i = ts ! i + d"
proof (induction d ts arbitrary: i rule: spaced.induct)
  case (1 d a b rest)
  then show ?case by (cases i) auto
qed simp_all

lemma on_time_main_loop:
  assumes v: "valid_config self"
    and parsed: "map (event_time self P) evs = map Inr ts"
    and on_time: "\<forall>i. Suc i < length ts \<longrightarrow>
                    ts ! Suc i = ts ! i + timedelta_seconds (interval_seconds self)"
    and idx: "1 \<le> event_index s" "event_index s < length evs"
    and ce: "current_expected s = ts ! (event_index s - 1)"
  shows "main_loop self P now evs s = Some (Inl OverflowError) \<or>
         main_loop self P now evs s =
           (case trailing self P now evs
                   (s\<lparr>current_expected := last ts, consecutive_misses := 0,
                       event_index := length evs\<rparr>) of
              None \<Rightarrow> None
            | Some (Inl e) \<Rightarrow> Some (Inl e)
            | Some (Inr (c, s')) \<Rightarrow> Some (Inr s'))"
  using idx ce
proof (induction "length evs - event_index s" arbitrary: s rule: less_induct)
  case less
  let ?k = "event_index s"
  let ?I = "timedelta_seconds (interval_seconds self)"
  have len: "length ts = length evs" using parsed by (metis length_map)
  have next_t: "ts ! ?k = ts ! (?k - 1) + ?I"
    using on_time less.prems len by (cases "event_index s") auto
  show ?case
  proof (cases "current_expected s" ?I rule: datetime_add_cases)
    case overflow
    have "loop_body self P now evs s = Some (Inl OverflowError)"
      using overflow(1) by (simp add: loop_body_def)
    then have "main_loop self P now evs s = Some (Inl OverflowError)"
      using less.prems by (subst main_loop.simps) simp
    then show ?thesis by simp
  next
    case ok
    let ?adv = "s\<lparr>current_expected := current_expected s + ?I\<rparr>"
    let ?hit = "s\<lparr>current_expected := ts ! ?k, consecutive_misses := 0, event_index := ?k + 1\<rparr>"
    have et: "event_time self P (evs ! ?k) = Inr (ts ! ?k)"
      using event_time_nth[OF parsed less.prems(2)] .
    have scan: "inner_scan self P evs ?adv = Inr (True, ?hit)"
      using less.prems et next_t valid_config_tol[OF v]
      by (subst inner_scan.simps) (simp add: Let_def total_seconds_zero)
    have body: "loop_body self P now evs s = trailing self P now evs ?hit"
      using large_gap_never[OF v] scan ok(1)
      by (simp add: loop_body_def slot_def Let_def count_miss_def)
    show ?thesis
    proof (cases "?k + 1 < length evs")
      case True
      have "loop_body self P now evs s = Some (Inr (Continue, ?hit))"
        using body True by (simp add: trailing_def)
      then have eq: "main_loop self P now evs s = main_loop self P now evs ?hit"
        using less.prems by (subst main_loop.simps) simp
      have "main_loop self P now evs ?hit = Some (Inl OverflowError) \<or>
            main_loop self P now evs ?hit =
             (case trailing self P now evs
                     (?hit\<lparr>current_expected := last ts, consecutive_misses := 0,
                         event_index := length evs\<rparr>) of
                None \<Rightarrow> None
              | Some (Inl e) \<Rightarrow> Some (Inl e)
              | Some (Inr (c, s')) \<Rightarrow> Some (Inr s'))"
        using True less.prems by (intro less.hyps) simp_all
      then show ?thesis unfolding eq by simp
    next
      case False
      then have k: "?k + 1 = length evs" using less.prems by simp
      then have "ts ! ?k = last ts"
        using len by (metis add_diff_cancel_right' last_conv_nth length_0_conv less.prems(2)
            less_nat_zero_code)
      then have h: "?hit = s\<lparr>current_expected := last ts, consecutive_misses := 0,
                            event_index := length evs\<rparr>"
        using k by simp
      have "(\<exists>r. trailing self P now evs ?hit = Some (Inl r)) \<or>
                 (\<exists>s'. trailing self P now evs ?hit = Some (Inr (Break, s'))) \<or>
                 trailing self P now evs ?hit = None"
        using k by (auto simp add: trailing_def Let_def split: sum.splits option.splits)
      then have "main_loop self P now evs s =
           (case trailing self P now evs ?hit of
              None \<Rightarrow> None
            | Some (Inl e) \<Rightarrow> Some (Inl e)
            | Some (Inr (c, s')) \<Rightarrow> Some (Inr s'))"
        using less.prems(2) body
        by (subst main_loop.simps) (auto split: option.splits sum.splits control.splits)
      then show ?thesis unfolding h by simp
    qed
  qed
qed

lemma trailing_at_end:
  assumes v: "valid_config self"
    and parsed: "map (event_time self P) evs = map Inr ts"
    and ne: "evs \<noteq> []"
    and idx: "length evs \<le> event_index s"
    and inv: "detector_inv self lo s"
    and quiet: "alerts s = []"
  shows "\<exists>r. trailing self P now evs s = Some r \<and>
           (r = Inl OverflowError \<or>
            (\<exists>s'. r = Inr (Break, s') \<and> detector_inv self lo s' \<and>
               (alerts s' = [] \<longleftrightarrow>
                  \<not> total_seconds (now - last ts)
                      < of_int (interval_seconds self * gap_limit self) \<or>
                  total_seconds (now - (current_expected s
                     + timedelta_seconds ((allowed_misses self - consecutive_misses s)
                                            * interval_seconds self)))
                    \<le> tolerance_seconds self)))"
proof (cases "total_seconds (now - last ts) < of_int (interval_seconds self * gap_limit self)")
  case False
  then show ?thesis
    using idx ne quiet inv last_event_time[OF parsed ne] by (simp add: trailing_def)
next
  case True
  from trailing_loop_quiet[OF v inv, of now] obtain r where
    r: "trailing_loop self now s = Some r"
    and c: "r = Inl OverflowError \<or>
            (\<exists>s'. r = Inr s' \<and>
               (alerts s' = alerts s \<longleftrightarrow>
                  total_seconds (now - (current_expected s
                     + timedelta_seconds ((allowed_misses self - consecutive_misses s)
                                            * interval_seconds self)))
                    \<le> tolerance_seconds self))"
    by blast
  from trailing_loop_inv[OF v inv, of now] r
  have i: "r = Inl OverflowError \<or> (\<exists>s'. r = Inr s' \<and> detector_inv self lo s')" by auto
  from c show ?thesis
  proof
    assume "r = Inl OverflowError"
    then show ?thesis
      using r True idx ne last_event_time[OF parsed ne] by (simp add: trailing_def)
  next
    assume "\<exists>s'. r = Inr s' \<and>
               (alerts s' = alerts s \<longleftrightarrow>
                  total_seconds (now - (current_expected s
                     + timedelta_seconds ((allowed_misses self - consecutive_misses s)
                                            * interval_seconds self)))
                    \<le> tolerance_seconds self)"
    then show ?thesis
      using r i True idx ne quiet last_event_time[OF parsed ne]
      by (auto simp add: trailing_def)
  qed
qed

lemma on_time_detect_run:
  assumes v: "valid_config self"
    and parsed: "map (event_time self P) evs = map Inr ts"
    and on_time: "\<forall>i. Suc i < length ts \<longrightarrow>
                    ts ! Suc i = ts ! i + timedelta_seconds (interval_seconds self)"
    and size: "2 \<le> length evs \<or> (evs \<noteq> [] \<and> 2 \<le> allowed_misses self)"
  shows "\<exists>r. detect_run self P now evs = Some r \<and>
           (r = Inl OverflowError \<or>
            (\<exists>al. r = Inr (al, 0) \<and>
               (al = [] \<longleftrightarrow>
                  \<not> total_seconds (now - last ts)
                      < of_int (interval_seconds self * gap_limit self) \<or>
                  total_seconds (now - (last ts
                     + timedelta_seconds (allowed_misses self * interval_seconds self)))
                    \<le> tolerance_seconds self)))"
proof -
  let ?I = "timedelta_seconds (interval_seconds self)"
  let ?s = "\<lparr>current_expected = ts ! 0, consecutive_misses = 0, event_index = 1, alerts = [],
             resyncs = 0\<rparr>"
  have ne: "evs \<noteq> []" using size by auto
  have len: "length ts = length evs" using parsed by (metis length_map)
  have first: "event_time self P (evs ! 0) = Inr (ts ! 0)"
    using event_time_nth[OF parsed] ne by simp
  have Ipos: "0 < ?I" using v by (simp add: valid_config_def timedelta_seconds_def)
  have am: "1 \<le> allowed_misses self" using v by (simp add: valid_config_def)
  have finish: "\<exists>r. detect_run self P now evs = Some r \<and>
           (r = Inl OverflowError \<or>
            (\<exists>al. r = Inr (al, 0) \<and>
               (al = [] \<longleftrightarrow>
                  \<not> total_seconds (now - last ts)
                      < of_int (interval_seconds self * gap_limit self) \<or>
                  total_seconds (now - (last ts
                     + timedelta_seconds (allowed_misses self * interval_seconds self)))
                    \<le> tolerance_seconds self)))"
    if run: "main_loop self P now evs ?s = Some (Inl OverflowError) \<or>
             main_loop self P now evs ?s =
               (case trailing self P now evs e of
                  None \<Rightarrow> None
                | Some (Inl x) \<Rightarrow> Some (Inl x)
                | Some (Inr (c, s')) \<Rightarrow> Some (Inr s'))"
      and inv: "detector_inv self lo e" and e: "length evs \<le> event_index e" "alerts e = []"
      and at: "current_expected e
                 + timedelta_seconds ((allowed_misses self - consecutive_misses e)
                                        * interval_seconds self)
               = last ts + timedelta_seconds (allowed_misses self * interval_seconds self)"
    for e lo
  proof -
    from trailing_at_end[OF v parsed ne e(1) inv e(2), of now] obtain r where
      t: "trailing self P now evs e = Some r"
      and c: "r = Inl OverflowError \<or>
            (\<exists>s'. r = Inr (Break, s') \<and> detector_inv self lo s' \<and>
               (alerts s' = [] \<longleftrightarrow>
                  \<not> total_seconds (now - last ts)
                      < of_int (interval_seconds self * gap_limit self) \<or>
                  total_seconds (now - (last ts
                     + timedelta_seconds (allowed_misses self * interval_seconds self)))
                    \<le> tolerance_seconds self))"
      unfolding at by blast
    from run show ?thesis
    proof
      assume "main_loop self P now evs ?s = Some (Inl OverflowError)"
      then show ?thesis using ne first by (simp add: detect_run_def)
    next
      assume m: "main_loop self P now evs ?s =
               (case trailing self P now evs e of
                  None \<Rightarrow> None
                | Some (Inl x) \<Rightarrow> Some (Inl x)
                | Some (Inr (c, s')) \<Rightarrow> Some (Inr s'))"
      from c show ?thesis
      proof
        assume "r = Inl OverflowError"
        then show ?thesis using m t ne first by (simp add: detect_run_def)
      next
        assume "\<exists>s'. r = Inr (Break, s') \<and> detector_inv self lo s' \<and>
               (alerts s' = [] \<longleftrightarrow>
                  \<not> total_seconds (now - last ts)
                      < of_int (interval_seconds self * gap_limit self) \<or>
                  total_seconds (now - (last ts
                     + timedelta_seconds (allowed_misses self * interval_seconds self)))
                    \<le> tolerance_seconds self)"
        then show ?thesis using m t ne first
          by (auto simp add: detect_run_def detector_inv_def)
      qed
    qed
  qed
  show ?thesis
  proof (cases "2 \<le> length evs")
    case True
    let ?e = "?s\<lparr>current_expected := last ts, consecutive_misses := 0,
                    event_index := length evs\<rparr>"
    have run: "main_loop self P now evs ?s = Some (Inl OverflowError) \<or>
           main_loop self P now evs ?s =
           (case trailing self P now evs ?e of
              None \<Rightarrow> None
            | Some (Inl e) \<Rightarrow> Some (Inl e)
            | Some (Inr (c, s')) \<Rightarrow> Some (Inr s'))"
      using True by (intro on_time_main_loop[OF v parsed on_time]) simp_all
    have inv: "detector_inv self (last ts) ?e" using am by (simp add: detector_inv_def)
    show ?thesis by (rule finish[OF run inv]) simp_all
  next
    case False
    have "0 < length evs" using ne by simp
    with False have one: "length evs = 1" by linarith
    have am2: "2 \<le> allowed_misses self" using size False by simp
    have last: "last ts = ts ! 0" using len one by (cases ts) auto
    let ?adv = "?s\<lparr>current_expected := ts ! 0 + ?I\<rparr>"
    let ?mis = "?adv\<lparr>consecutive_misses := 1\<rparr>"
    have scan: "inner_scan self P evs ?adv = Inr (False, ?adv)"
      using one by (subst inner_scan.simps) simp
    have inv: "detector_inv self (ts ! 0) ?mis" using am2 Ipos by (simp add: detector_inv_def)
    have split: "timedelta_seconds (allowed_misses self * interval_seconds self)
                   = ?I + timedelta_seconds ((allowed_misses self - 1) * interval_seconds self)"
      using timedelta_seconds_mult[of "allowed_misses self - 1" "interval_seconds self"] by simp
    have run: "main_loop self P now evs ?s = Some (Inl OverflowError) \<or>
           main_loop self P now evs ?s =
           (case trailing self P now evs ?mis of
              None \<Rightarrow> None
            | Some (Inl e) \<Rightarrow> Some (Inl e)
            | Some (Inr (c, s')) \<Rightarrow> Some (Inr s'))"
    proof (cases "ts ! 0" ?I rule: datetime_add_cases)
      case overflow
      have "loop_body self P now evs ?s = Some (Inl OverflowError)"
        using overflow(1) by (simp add: loop_body_def)
      then have "main_loop self P now evs ?s = Some (Inl OverflowError)"
        using one by (subst main_loop.simps) simp
      then show ?thesis by simp
    next
      case ok
      have body: "loop_body self P now evs ?s = trailing self P now evs ?mis"
        using large_gap_never[OF v] scan am2 ok(1)
        by (simp add: loop_body_def slot_def Let_def count_miss_def)
      have "(\<exists>r. trailing self P now evs ?mis = Some (Inl r)) \<or>
                 (\<exists>s'. trailing self P now evs ?mis = Some (Inr (Break, s'))) \<or>
                 trailing self P now evs ?mis = None"
        using one by (auto simp add: trailing_def Let_def split: sum.splits option.splits)
      then have "main_loop self P now evs ?s =
           (case trailing self P now evs ?mis of
              None \<Rightarrow> None
            | Some (Inl e) \<Rightarrow> Some (Inl e)
            | Some (Inr (c, s')) \<Rightarrow> Some (Inr s'))"
        using one body
        by (subst main_loop.simps) (auto split: option.splits sum.splits control.splits)
      then show ?thesis by simp
    qed
    show ?thesis by (rule finish[OF run inv]) (use one last split in \<open>simp_all add: add.assoc\<close>)
  qed
qed

text \<open>
  C1 (amended). For every timeline whose instants are spaced exactly one interval apart
  (other than a single event under \<open>allowed_misses = 1\<close>), every valid configuration and
  every current time, \<open>detect_missed_heartbeats\<close> terminates. It returns a list, unless the
  expected clock leaves the range of a datetime, where it raises \<^verbatim>\<open>OverflowError\<close>. The
  list is empty if and only if the timeline is empty, or the service is stale (the float
  of the seconds since the last event is at least \<open>interval \<times> gap_limit\<close>), or the slot
  \<open>allowed_misses\<close> intervals after the last event is not yet overdue (the float of the
  seconds since that slot is at most \<open>tolerance_seconds\<close>, the rounded product that the
  monitor stores). At the remaining current times the trailing extrapolation alerts.
\<close>

theorem on_time_no_alert:
  assumes "valid_config self"
    and "map (event_time self P) evs = map Inr ts"
    and "spaced (timedelta_seconds (interval_seconds self)) ts"
    and "length evs \<noteq> 1 \<or> 2 \<le> allowed_misses self"
  shows "\<exists>r. detect_missed_heartbeats self P now evs = Some r \<and>
           ((r = Inl OverflowError \<and> \<not> clock_in_range self ts now) \<or>
            (\<exists>al. r = Inr al \<and>
               (al = [] \<longleftrightarrow>
                  evs = [] \<or>
                  \<not> total_seconds (now - last ts)
                      < of_int (interval_seconds self * gap_limit self) \<or>
                  total_seconds (now - (last ts
                     + timedelta_seconds (allowed_misses self * interval_seconds self)))
                    \<le> tolerance_seconds self)))"
proof (cases "evs = []")
  case True
  then show ?thesis by (simp add: detect_missed_heartbeats_def detect_run_def)
next
  case False
  then have "0 < length evs" by simp
  then have size: "2 \<le> length evs \<or> (evs \<noteq> [] \<and> 2 \<le> allowed_misses self)"
    using assms(4) False by linarith
  have "\<forall>i. Suc i < length ts \<longrightarrow>
           ts ! Suc i = ts ! i + timedelta_seconds (interval_seconds self)"
    using spaced_nth[OF assms(3)] by blast
  from on_time_detect_run[OF assms(1,2) this size, of now] obtain r where
    r: "detect_run self P now evs = Some r"
    and c: "r = Inl OverflowError \<or>
            (\<exists>al. r = Inr (al, 0) \<and>
               (al = [] \<longleftrightarrow>
                  \<not> total_seconds (now - last ts)
                      < of_int (interval_seconds self * gap_limit self) \<or>
                  total_seconds (now - (last ts
                     + timedelta_seconds (allowed_misses self * interval_seconds self)))
                    \<le> tolerance_seconds self))"
    by blast
  from detect_run_inv[OF assms(1,2), of now] r
  have o: "r = Inl OverflowError \<Longrightarrow> \<not> clock_in_range self ts now" by auto
  from c show ?thesis
  proof
    assume "r = Inl OverflowError"
    then show ?thesis using r o by (simp add: detect_missed_heartbeats_def)
  next
    assume "\<exists>al. r = Inr (al, 0) \<and>
               (al = [] \<longleftrightarrow>
                  \<not> total_seconds (now - last ts)
                      < of_int (interval_seconds self * gap_limit self) \<or>
                  total_seconds (now - (last ts
                     + timedelta_seconds (allowed_misses self * interval_seconds self)))
                    \<le> tolerance_seconds self)"
    then show ?thesis using r False by (auto simp add: detect_missed_heartbeats_def)
  qed
qed

theorem on_time_no_alert_witness:
  "valid_config default_monitor \<and>
   map (event_time default_monitor sample_fromisoformat)
     [heartbeat ''api'' ''2025-08-04T10:00:00Z'', heartbeat ''api'' ''2025-08-04T10:01:00Z'',
      heartbeat ''api'' ''2025-08-04T10:02:00Z'']
     = map Inr [1754301600000000, 1754301660000000, 1754301720000000] \<and>
   spaced (timedelta_seconds (interval_seconds default_monitor))
     [1754301600000000, 1754301660000000, 1754301720000000] \<and>
   detect_missed_heartbeats default_monitor sample_fromisoformat 1754301800000000
     [heartbeat ''api'' ''2025-08-04T10:00:00Z'', heartbeat ''api'' ''2025-08-04T10:01:00Z'',
      heartbeat ''api'' ''2025-08-04T10:02:00Z''] = Some (Inr []) \<and>
   valid_config tight_monitor \<and>
   map (event_time tight_monitor sample_fromisoformat)
     [heartbeat ''api'' ''2025-08-04T10:00:00Z'', heartbeat ''api'' ''2025-08-04T10:00:03Z'']
     = map Inr [1754301600000000, 1754301603000000] \<and>
   spaced (timedelta_seconds (interval_seconds tight_monitor))
     [1754301600000000, 1754301603000000] \<and>
   detect_missed_heartbeats tight_monitor sample_fromisoformat 1754301611100000
     [heartbeat ''api'' ''2025-08-04T10:00:00Z'', heartbeat ''api'' ''2025-08-04T10:00:03Z'']
     = Some (Inr [1754301609000000]) \<and>
   tolerance_seconds tight_monitor
     < total_seconds (1754301611100000 - (1754301603000000
          + timedelta_seconds (allowed_misses tight_monitor * interval_seconds tight_monitor)))"
proof -
  let ?ts = "[1754301600000000, 1754301660000000, 1754301720000000 :: int]"
  let ?evs = "[heartbeat ''api'' ''2025-08-04T10:00:00Z'', heartbeat ''api'' ''2025-08-04T10:01:00Z'',
      heartbeat ''api'' ''2025-08-04T10:02:00Z'']"
  have p: "map (event_time default_monitor sample_fromisoformat) ?evs = map Inr ?ts"
    by (simp add: sample_event_time)
  have o: "spaced (timedelta_seconds (interval_seconds default_monitor)) ?ts"
    by (simp add: timedelta_seconds_def default_monitor_def)
  have n: "length ?evs \<noteq> 1 \<or> 2 \<le> allowed_misses default_monitor" by simp
  have e: "detect_missed_heartbeats default_monitor sample_fromisoformat 1754301800000000 ?evs
             = Some (Inr [])"
    by code_simp
  let ?ts' = "[1754301600000000, 1754301603000000 :: int]"
  let ?evs' = "[heartbeat ''api'' ''2025-08-04T10:00:00Z'', heartbeat ''api'' ''2025-08-04T10:00:03Z'']"
  have p': "map (event_time tight_monitor sample_fromisoformat) ?evs' = map Inr ?ts'"
    by (simp add: sample_event_time)
  have o': "spaced (timedelta_seconds (interval_seconds tight_monitor)) ?ts'"
    by (simp add: timedelta_seconds_def tight_monitor_def)
  have n': "length ?evs' \<noteq> 1 \<or> 2 \<le> allowed_misses tight_monitor" by simp
  have e': "detect_missed_heartbeats tight_monitor sample_fromisoformat 1754301611100000 ?evs'
              = Some (Inr [1754301609000000])"
    by code_simp
  from on_time_no_alert[OF valid_tight_monitor p' o' n', of 1754301611100000]
  have "tolerance_seconds tight_monitor
          < total_seconds (1754301611100000 - (1754301603000000
              + timedelta_seconds (allowed_misses tight_monitor * interval_seconds tight_monitor)))"
    unfolding e' by simp
  with on_time_no_alert[OF valid_default_monitor p o n, of 1754301800000000]
  show ?thesis using valid_default_monitor valid_tight_monitor p o e p' o' e' by simp
qed

theorem on_time_alert_counterexample:
  "valid_config default_monitor \<and>
   map (event_time default_monitor sample_fromisoformat)
     [heartbeat ''api'' ''2025-08-04T10:00:00Z'', heartbeat ''api'' ''2025-08-04T10:01:00Z'',
      heartbeat ''api'' ''2025-08-04T10:02:00Z'']
     = map Inr [1754301600000000, 1754301660000000, 1754301720000000] \<and>
   spaced (timedelta_seconds (interval_seconds default_monitor))
     [1754301600000000, 1754301660000000, 1754301720000000] \<and>
   detect_missed_heartbeats default_monitor sample_fromisoformat 1754302000000000
     [heartbeat ''api'' ''2025-08-04T10:00:00Z'', heartbeat ''api'' ''2025-08-04T10:01:00Z'',
      heartbeat ''api'' ''2025-08-04T10:02:00Z''] = Some (Inr [1754301900000000])"
proof -
  have "detect_missed_heartbeats default_monitor sample_fromisoformat 1754302000000000
     [heartbeat ''api'' ''2025-08-04T10:00:00Z'', heartbeat ''api'' ''2025-08-04T10:01:00Z'',
      heartbeat ''api'' ''2025-08-04T10:02:00Z''] = Some (Inr [1754301900000000])"
    by code_simp
  then show ?thesis
    using valid_default_monitor
    by (simp add: sample_event_time timedelta_seconds_def default_monitor_def)
qed

subsection \<open>Empty input and single events\<close>

lemma sort_events_by_service_single:
  "validate_event self P now e \<Longrightarrow>
     sort_events_by_service self P now [e] = [(event_service e, [e])]"
  by (simp add: sort_events_by_service_def remove_duplicates.simps)

text \<open>
  C6 (amended). An empty input list yields an empty alert list, without error, for every
  configuration and every current time. On a timeline of exactly one event, under a valid
  configuration with \<open>allowed_misses \<ge> 2\<close>, the detector terminates. It returns a list,
  unless the expected clock leaves the range of a datetime, where it raises
  \<^verbatim>\<open>OverflowError\<close>. The list is empty if and only if the service is stale (the float of
  the seconds since the event is at least \<open>interval \<times> gap_limit\<close>) or the slot
  \<open>allowed_misses\<close> intervals after the event is not yet overdue (the float of the seconds
  since that slot is at most \<open>tolerance_seconds\<close>, the rounded product that the monitor
  stores). Where the detector returns no alert for an accepted record,
  \<open>monitor_heartbeats\<close> on that record alone returns the empty list.
\<close>

theorem empty_and_single_event:
  "monitor_heartbeats self P F now (PList []) = Some (Inr []) \<and>
   detect_missed_heartbeats self P now [] = Some (Inr []) \<and>
   (valid_config self \<and> event_time self P e = Inr t \<and> 2 \<le> allowed_misses self \<longrightarrow>
      (\<exists>r. detect_missed_heartbeats self P now [e] = Some r \<and>
         ((r = Inl OverflowError \<and> \<not> clock_in_range self [t] now) \<or>
          (\<exists>al. r = Inr al \<and>
             (al = [] \<longleftrightarrow>
                \<not> total_seconds (now - t) < of_int (interval_seconds self * gap_limit self) \<or>
                total_seconds (now - (t
                   + timedelta_seconds (allowed_misses self * interval_seconds self)))
                  \<le> tolerance_seconds self))))) \<and>
   (validate_event self P now e \<and> detect_missed_heartbeats self P now [e] = Some (Inr []) \<longrightarrow>
      monitor_heartbeats self P F now (PList [e]) = Some (Inr []))"
proof -
  have a: "monitor_heartbeats self P F now (PList []) = Some (Inr [])"
    by (simp add: monitor_heartbeats_def sort_events_by_service_def)
  have b: "detect_missed_heartbeats self P now [] = Some (Inr [])"
    by (simp add: detect_missed_heartbeats_def detect_run_def)
  have c: "\<exists>r. detect_missed_heartbeats self P now [e] = Some r \<and>
         ((r = Inl OverflowError \<and> \<not> clock_in_range self [t] now) \<or>
          (\<exists>al. r = Inr al \<and>
             (al = [] \<longleftrightarrow>
                \<not> total_seconds (now - t) < of_int (interval_seconds self * gap_limit self) \<or>
                total_seconds (now - (t
                   + timedelta_seconds (allowed_misses self * interval_seconds self)))
                  \<le> tolerance_seconds self)))"
    if v: "valid_config self" and e: "event_time self P e = Inr t"
      and am: "2 \<le> allowed_misses self"
  proof -
    have p: "map (event_time self P) [e] = map Inr [t]" using e by simp
    have o: "\<forall>i. Suc i < length [t] \<longrightarrow>
               [t] ! Suc i = [t] ! i + timedelta_seconds (interval_seconds self)" by simp
    from on_time_detect_run[OF v p o, of now] am obtain r where
      r: "detect_run self P now [e] = Some r"
      and c: "r = Inl OverflowError \<or>
            (\<exists>al. r = Inr (al, 0) \<and>
               (al = [] \<longleftrightarrow>
                  \<not> total_seconds (now - t)
                      < of_int (interval_seconds self * gap_limit self) \<or>
                  total_seconds (now - (t
                     + timedelta_seconds (allowed_misses self * interval_seconds self)))
                    \<le> tolerance_seconds self))"
      by auto
    from detect_run_inv[OF v p, of now] r
    have ov: "r = Inl OverflowError \<Longrightarrow> \<not> clock_in_range self [t] now" by auto
    from c show ?thesis
    proof
      assume "r = Inl OverflowError"
      then show ?thesis using r ov by (simp add: detect_missed_heartbeats_def)
    next
      assume "\<exists>al. r = Inr (al, 0) \<and>
               (al = [] \<longleftrightarrow>
                  \<not> total_seconds (now - t)
                      < of_int (interval_seconds self * gap_limit self) \<or>
                  total_seconds (now - (t
                     + timedelta_seconds (allowed_misses self * interval_seconds self)))
                    \<le> tolerance_seconds self)"
      then show ?thesis using r by (auto simp add: detect_missed_heartbeats_def)
    qed
  qed
  have d: "monitor_heartbeats self P F now (PList [e]) = Some (Inr [])"
    if "validate_event self P now e" "detect_missed_heartbeats self P now [e] = Some (Inr [])"
    using that by (simp add: monitor_heartbeats_def sort_events_by_service_single)
  from a b c d show ?thesis by blast
qed

theorem empty_and_single_event_witness:
  "valid_config default_monitor \<and>
   event_time default_monitor sample_fromisoformat (heartbeat ''single'' ''2025-08-04T10:00:00Z'')
     = Inr 1754301600000000 \<and>
   2 \<le> allowed_misses default_monitor \<and>
   validate_event default_monitor sample_fromisoformat 1800000000000000
     (heartbeat ''single'' ''2025-08-04T10:00:00Z'') \<and>
   detect_missed_heartbeats default_monitor sample_fromisoformat 1800000000000000
     [heartbeat ''single'' ''2025-08-04T10:00:00Z''] = Some (Inr []) \<and>
   monitor_heartbeats default_monitor sample_fromisoformat sample_strftime 1800000000000000
     (PList [heartbeat ''single'' ''2025-08-04T10:00:00Z'']) = Some (Inr []) \<and>
   valid_config tight_monitor \<and> 2 \<le> allowed_misses tight_monitor \<and>
   detect_missed_heartbeats tight_monitor sample_fromisoformat 1754301608100000
     [heartbeat ''single'' ''2025-08-04T10:00:00Z''] = Some (Inr [1754301606000000]) \<and>
   tolerance_seconds tight_monitor
     < total_seconds (1754301608100000 - (1754301600000000
          + timedelta_seconds (allowed_misses tight_monitor * interval_seconds tight_monitor)))"
proof -
  let ?e = "heartbeat ''single'' ''2025-08-04T10:00:00Z''"
  have am: "2 \<le> allowed_misses default_monitor" by (simp add: default_monitor_def)
  have am': "2 \<le> allowed_misses tight_monitor" by (simp add: tight_monitor_def)
  have et: "event_time default_monitor sample_fromisoformat ?e = Inr 1754301600000000"
    "event_time tight_monitor sample_fromisoformat ?e = Inr 1754301600000000"
    by (simp_all add: sample_event_time)
  have s: "py_strip ''single'' = ''single''" by (simp add: py_strip_def py_isspace_def)
  have ok: "validate_event default_monitor sample_fromisoformat 1800000000000000 ?e"
    by (simp add: validate_event_def heartbeat_def s sample_parse timedelta_hours_def)
  have d: "detect_missed_heartbeats default_monitor sample_fromisoformat 1800000000000000 [?e]
             = Some (Inr [])"
    by code_simp
  have d': "detect_missed_heartbeats tight_monitor sample_fromisoformat 1754301608100000 [?e]
              = Some (Inr [1754301606000000])"
    by code_simp
  from empty_and_single_event
      [where self = tight_monitor and P = sample_fromisoformat and F = sample_strftime
         and now = 1754301608100000 and e = ?e and t = 1754301600000000]
    valid_tight_monitor am' et(2)
  have "tolerance_seconds tight_monitor
     < total_seconds (1754301608100000 - (1754301600000000
          + timedelta_seconds (allowed_misses tight_monitor * interval_seconds tight_monitor)))"
    unfolding d' by simp
  with empty_and_single_event
      [where self = default_monitor and P = sample_fromisoformat and F = sample_strftime
         and now = 1800000000000000 and e = ?e and t = 1754301600000000]
  show ?thesis using valid_default_monitor valid_tight_monitor am am' et ok d d' by simp
qed

theorem single_event_alert_counterexample:
  "valid_config default_monitor \<and>
   event_time default_monitor sample_fromisoformat (heartbeat ''single'' ''2025-08-04T10:00:00Z'')
     = Inr 1754301600000000 \<and>
   detect_missed_heartbeats default_monitor sample_fromisoformat 1754301900000000
     [heartbeat ''single'' ''2025-08-04T10:00:00Z''] = Some (Inr [1754301780000000])"
proof -
  have "detect_missed_heartbeats default_monitor sample_fromisoformat 1754301900000000
     [heartbeat ''single'' ''2025-08-04T10:00:00Z''] = Some (Inr [1754301780000000])"
    by code_simp
  then show ?thesis using valid_default_monitor by (simp add: sample_event_time)
qed

subsection \<open>Grouping\<close>

lemma validate_event_cases:
  assumes "validate_event self P now e"
  obtains kvs sv tsv t where
    "e = PDict kvs" "map_of kvs ''service'' = Some (PStr sv)" "py_strip sv \<noteq> []"
    "length (py_strip sv) \<le> 100" "map_of kvs ''timestamp'' = Some tsv"
    "parse_timestamp self P tsv = Some t" "t \<le> now + timedelta_hours 24"
proof (cases e)
  case (PDict kvs)
  show ?thesis
  proof (cases "map_of kvs ''service''")
    case None
    then show ?thesis using assms PDict by (simp add: validate_event_def)
  next
    case (Some service)
    note svc = this
    show ?thesis
    proof (cases "map_of kvs ''timestamp''")
      case None
      then show ?thesis using assms PDict svc by (simp add: validate_event_def)
    next
      case (Some tsv)
      note ts = this
      show ?thesis
      proof (cases service)
        case (PStr sv)
        show ?thesis
        proof (cases "parse_timestamp self P tsv")
          case None
          then show ?thesis using assms PDict svc ts PStr
            by (simp add: validate_event_def split: if_splits)
        next
          case (Some t)
          then show ?thesis using assms PDict svc ts PStr that[of kvs sv tsv t]
            by (simp add: validate_event_def Let_def split: if_splits)
        qed
      qed (use assms PDict svc ts in \<open>simp_all add: validate_event_def\<close>)
    qed
  qed
qed (use assms in \<open>simp_all add: validate_event_def\<close>)

lemma validate_event_fields:
  assumes "validate_event self P now e"
  shows "\<exists>t. timestamp_of self P e = Some t \<and> event_time self P e = Inr t
           \<and> t \<le> now + timedelta_hours 24"
  using assms by (elim validate_event_cases) (simp add: timestamp_of_def event_time_def)

lemma validate_event_service:
  assumes "validate_event self P now e"
  shows "event_service e \<noteq> []"
  using assms by (elim validate_event_cases) (simp add: event_service_def)

lemma validate_event_later:
  assumes "validate_event self P now e" "now \<le> now'"
  shows "validate_event self P now' e"
  using assms by (elim validate_event_cases) (simp add: validate_event_def)

lemma append_event_keys:
  "map fst (append_event k e acc) = (if k \<in> fst ` set acc then map fst acc else map fst acc @ [k])"
  by (induction k e acc rule: append_event.induct) (auto simp: image_iff)

lemma append_event_fresh:
  "k \<notin> fst ` set acc \<Longrightarrow> append_event k e acc = acc @ [(k, [e])]"
  by (induction k e acc rule: append_event.induct) auto

lemma append_event_last:
  "k \<notin> fst ` set acc \<Longrightarrow> append_event k e (acc @ [(k, es)]) = acc @ [(k, es @ [e])]"
  by (induction k e acc rule: append_event.induct) auto

lemma append_event_members:
  "(k, es) \<in> set (append_event k' e' acc) \<Longrightarrow> e \<in> set es \<Longrightarrow>
     (\<exists>es0. (k, es0) \<in> set acc \<and> e \<in> set es0) \<or> (k = k' \<and> e = e')"
  by (induction k' e' acc rule: append_event.induct) (auto split: if_splits)

lemma append_event_nonempty:
  "\<forall>(k, es) \<in> set acc. es \<noteq> [] \<Longrightarrow> \<forall>(k, es) \<in> set (append_event k' e' acc). es \<noteq> []"
  by (induction k' e' acc rule: append_event.induct) auto

lemma append_event_keeps:
  "(k, es0) \<in> set acc \<Longrightarrow> e \<in> set es0 \<Longrightarrow>
     \<exists>es. (k, es) \<in> set (append_event k' e' acc) \<and> e \<in> set es"
  by (induction k' e' acc rule: append_event.induct) auto

lemma append_event_has:
  "\<exists>es. (k, es) \<in> set (append_event k e acc) \<and> e \<in> set es"
  by (induction k e acc rule: append_event.induct) auto

lemma group_events_keys_distinct:
  "distinct (map fst acc) \<Longrightarrow> distinct (map fst (group_events self P now events acc))"
proof (induction events arbitrary: acc)
  case (Cons e events)
  have "distinct (map fst (append_event k e acc))" for k
    using Cons.prems by (simp add: append_event_keys)
  then show ?case using Cons by simp
qed simp

lemma group_events_members:
  "(k, es) \<in> set (group_events self P now events acc) \<Longrightarrow> e \<in> set es \<Longrightarrow>
     (\<exists>es0. (k, es0) \<in> set acc \<and> e \<in> set es0) \<or>
     (e \<in> set events \<and> validate_event self P now e \<and> event_service e = k)"
proof (induction events arbitrary: acc)
  case (Cons x events)
  show ?case
  proof (cases "validate_event self P now x")
    case False
    then show ?thesis using Cons by auto
  next
    case True
    with Cons.prems have "(k, es) \<in> set (group_events self P now events
                                         (append_event (event_service x) x acc))"
      by simp
    from Cons.IH[OF this Cons.prems(2)] show ?thesis
      using True append_event_members[of k _ "event_service x" x acc e] by auto
  qed
qed auto

lemma group_events_nonempty:
  "\<forall>(k, es) \<in> set acc. es \<noteq> [] \<Longrightarrow>
     \<forall>(k, es) \<in> set (group_events self P now events acc). es \<noteq> []"
proof (induction events arbitrary: acc)
  case (Cons x events)
  show ?case
  proof (cases "validate_event self P now x")
    case False
    then show ?thesis using Cons by simp
  next
    case True
    have "\<forall>(k, es) \<in> set (append_event (event_service x) x acc). es \<noteq> []"
      using append_event_nonempty[OF Cons.prems] .
    from Cons.IH[OF this] show ?thesis using True by simp
  qed
qed simp

lemma group_events_keeps:
  "(k, es0) \<in> set acc \<Longrightarrow> e \<in> set es0 \<Longrightarrow>
     \<exists>es. (k, es) \<in> set (group_events self P now events acc) \<and> e \<in> set es"
proof (induction events arbitrary: acc es0)
  case (Cons x events)
  show ?case
  proof (cases "validate_event self P now x")
    case False
    then show ?thesis using Cons by auto
  next
    case True
    from append_event_keeps[OF Cons.prems, of "event_service x" x] obtain es1 where
      "(k, es1) \<in> set (append_event (event_service x) x acc)" "e \<in> set es1" by blast
    from Cons.IH[OF this] show ?thesis using True by simp
  qed
qed auto

lemma group_events_complete:
  "e \<in> set events \<Longrightarrow> validate_event self P now e \<Longrightarrow>
     \<exists>es. (event_service e, es) \<in> set (group_events self P now events acc) \<and> e \<in> set es"
proof (induction events arbitrary: acc)
  case (Cons x events)
  show ?case
  proof (cases "e = x")
    case True
    from append_event_has[of "event_service e" e acc] obtain es1 where
      "(event_service e, es1) \<in> set (append_event (event_service e) e acc)" "e \<in> set es1"
      by blast
    from group_events_keeps[OF this] show ?thesis using True Cons.prems(2) by simp
  next
    case False
    then have "e \<in> set events" using Cons.prems by simp
    from Cons.IH[OF this Cons.prems(2)] show ?thesis by (cases "validate_event self P now x") auto
  qed
qed simp


lemma group_events_append:
  "group_events self P now (xs @ ys) acc
     = group_events self P now ys (group_events self P now xs acc)"
  by (induction xs arbitrary: acc) simp_all

lemma group_events_same_service:
  assumes "k \<notin> fst ` set acc"
    and "\<forall>e \<in> set es. validate_event self P now e \<and> event_service e = k"
  shows "group_events self P now es (acc @ [(k, es0)]) = acc @ [(k, es0 @ es)]"
  using assms(2)
proof (induction es arbitrary: es0)
  case (Cons e es)
  then show ?case using append_event_last[OF assms(1), of e es0] by simp
qed simp

lemma group_events_one_service:
  assumes "k \<notin> fst ` set acc" and "es \<noteq> []"
    and "\<forall>e \<in> set es. validate_event self P now e \<and> event_service e = k"
  shows "group_events self P now es acc = acc @ [(k, es)]"
proof (cases es)
  case (Cons e es')
  then show ?thesis
    using assms append_event_fresh[OF assms(1), of e]
      group_events_same_service[OF assms(1), of es' self P now "[e]"]
    by simp
qed (use assms in simp)

lemma group_events_regroup:
  assumes "distinct (map fst (G1 @ G2))"
    and "\<forall>(k, es) \<in> set G2. es \<noteq> [] \<and>
           (\<forall>e \<in> set es. validate_event self P now e \<and> event_service e = k)"
  shows "group_events self P now (concat (map snd G2)) G1 = G1 @ G2"
  using assms
proof (induction G2 arbitrary: G1)
  case (Cons g G2)
  obtain k es where g: "g = (k, es)" by (cases g)
  have fresh: "k \<notin> fst ` set G1" using Cons.prems(1) g by auto
  have one: "group_events self P now es G1 = G1 @ [(k, es)]"
    using Cons.prems(2) g by (intro group_events_one_service[OF fresh]) auto
  have "group_events self P now (concat (map snd G2)) (G1 @ [(k, es)]) = (G1 @ [(k, es)]) @ G2"
    using Cons.prems g by (intro Cons.IH) auto
  then show ?case using g one by (simp add: group_events_append)
qed simp

subsection \<open>Removing duplicates\<close>

lemma remove_duplicates_acc:
  "remove_duplicates self P es acc seen = acc @ remove_duplicates self P es [] seen"
proof (induction es arbitrary: acc seen)
  case (Cons e es)
  show ?case
    using Cons.IH[of "acc @ [e]"] Cons.IH[of "[e]"] Cons.IH[of acc]
    by (simp add: Let_def remove_duplicates.simps)
qed (simp add: remove_duplicates.simps)

lemma remove_duplicates_Cons:
  "remove_duplicates self P (e # es) [] seen =
     (if timestamp_of self P e \<notin> seen
      then e # remove_duplicates self P es [] (insert (timestamp_of self P e) seen)
      else remove_duplicates self P es [] seen)"
  using remove_duplicates_acc[of self P es "[e]"] by (simp add: Let_def remove_duplicates.simps)

lemma remove_duplicates_Nil: "remove_duplicates self P [] [] seen = []"
  by (simp add: remove_duplicates.simps)

lemma remove_duplicates_subset:
  "set (remove_duplicates self P es [] seen) \<subseteq> set es"
  by (induction es arbitrary: seen) (auto simp add: remove_duplicates_Cons remove_duplicates_Nil)

lemma remove_duplicates_unseen:
  "e \<in> set (remove_duplicates self P es [] seen) \<Longrightarrow> timestamp_of self P e \<notin> seen"
  by (induction es arbitrary: seen) (auto simp add: remove_duplicates_Cons remove_duplicates_Nil split: if_splits)

lemma remove_duplicates_distinct:
  "distinct (map (timestamp_of self P) (remove_duplicates self P es [] seen))"
proof (induction es arbitrary: seen)
  case (Cons x es)
  let ?k = "timestamp_of self P x"
  have "?k \<notin> timestamp_of self P ` set (remove_duplicates self P es [] (insert ?k seen))"
  proof
    assume "?k \<in> timestamp_of self P ` set (remove_duplicates self P es [] (insert ?k seen))"
    then obtain e where "e \<in> set (remove_duplicates self P es [] (insert ?k seen))"
      "timestamp_of self P e = ?k" by auto
    then show False using remove_duplicates_unseen[of e self P es "insert ?k seen"] by simp
  qed
  then show ?case using Cons[of seen] Cons[of "insert ?k seen"]
    by (simp add: remove_duplicates_Cons)
qed (simp add: remove_duplicates_Nil)

lemma remove_duplicates_sorted:
  "sorted (map (timestamp_of self P) es) \<Longrightarrow>
     sorted (map (timestamp_of self P) (remove_duplicates self P es [] seen))"
proof (induction es arbitrary: seen)
  case (Cons e es)
  then show ?case
    using remove_duplicates_subset[of self P es]
    by (auto simp add: remove_duplicates_Cons remove_duplicates_Nil)
qed (simp add: remove_duplicates_Nil)

lemma remove_duplicates_id:
  "distinct (map (timestamp_of self P) es) \<Longrightarrow> timestamp_of self P ` set es \<inter> seen = {} \<Longrightarrow>
     remove_duplicates self P es [] seen = es"
proof (induction es arbitrary: seen)
  case (Cons e es)
  have "timestamp_of self P ` set es \<inter> insert (timestamp_of self P e) seen = {}"
    using Cons.prems by auto
  then show ?case using Cons by (simp add: remove_duplicates_Cons remove_duplicates_Nil)
qed (simp add: remove_duplicates_Nil)

lemma remove_duplicates_complete:
  "e \<in> set es \<Longrightarrow>
     timestamp_of self P e \<in> timestamp_of self P ` set (remove_duplicates self P es [] seen) \<union> seen"
proof (induction es arbitrary: seen)
  case (Cons x es)
  show ?case
  proof (cases "e = x")
    case True
    then show ?thesis by (simp add: remove_duplicates_Cons remove_duplicates_Nil)
  next
    case False
    then have "e \<in> set es" using Cons.prems by simp
    from Cons.IH[OF this, of "insert (timestamp_of self P x) seen"] Cons.IH[OF this, of seen]
    show ?thesis by (auto simp add: remove_duplicates_Cons remove_duplicates_Nil)
  qed
qed (simp add: remove_duplicates_Nil)

lemma remove_duplicates_nonempty:
  "es \<noteq> [] \<Longrightarrow> remove_duplicates self P es [] {} \<noteq> []"
  by (cases es) (simp_all add: remove_duplicates_Cons remove_duplicates_Nil)


subsection \<open>The groups of \<open>sort_events_by_service\<close>\<close>

lemma sort_events_by_service_keys:
  "distinct (map fst (sort_events_by_service self P now events))"
proof -
  have "map fst (sort_events_by_service self P now events)
          = map fst (group_events self P now events [])"
    by (simp add: sort_events_by_service_def case_prod_unfold comp_def)
  then show ?thesis using group_events_keys_distinct[of "[]" self P now events] by simp
qed

lemma sort_events_by_service_group:
  assumes "(k, es') \<in> set (sort_events_by_service self P now events)"
  shows "es' \<noteq> []"
    and "\<forall>e \<in> set es'. e \<in> set events \<and> validate_event self P now e \<and> event_service e = k"
    and "sorted (map (timestamp_of self P) es')"
    and "distinct (map (timestamp_of self P) es')"
    and "\<forall>e \<in> set events. validate_event self P now e \<and> event_service e = k \<longrightarrow>
           timestamp_of self P e \<in> timestamp_of self P ` set es'"
proof -
  let ?G0 = "group_events self P now events []"
  from assms obtain es where
    g0: "(k, es) \<in> set ?G0"
    and es': "es' = remove_duplicates self P (sort_key (timestamp_of self P) es) [] {}"
    by (auto simp add: sort_events_by_service_def)
  have ne: "es \<noteq> []" using group_events_nonempty[of "[]" self P now events] g0 by auto
  then have "sort_key (timestamp_of self P) es \<noteq> []" by (metis length_0_conv length_sort)
  then show "es' \<noteq> []" unfolding es' by (rule remove_duplicates_nonempty)
  have sub: "set es' \<subseteq> set es"
    unfolding es' using remove_duplicates_subset[of self P "sort_key (timestamp_of self P) es" "{}"]
    by simp
  show "\<forall>e \<in> set es'. e \<in> set events \<and> validate_event self P now e \<and> event_service e = k"
    using sub group_events_members[OF g0] by auto
  show "sorted (map (timestamp_of self P) es')"
    unfolding es' by (intro remove_duplicates_sorted sorted_sort_key)
  show "distinct (map (timestamp_of self P) es')"
    unfolding es' by (rule remove_duplicates_distinct)
  show "\<forall>e \<in> set events. validate_event self P now e \<and> event_service e = k \<longrightarrow>
           timestamp_of self P e \<in> timestamp_of self P ` set es'"
  proof (intro ballI impI)
    fix e assume e: "e \<in> set events" "validate_event self P now e \<and> event_service e = k"
    from group_events_complete[OF e(1), of self P now "[]"] e(2) obtain es1 where
      g1: "(k, es1) \<in> set ?G0" "e \<in> set es1" by auto
    have "distinct (map fst ?G0)" using group_events_keys_distinct[of "[]" self P now events] by simp
    then have "es1 = es" using g0 g1(1) by (meson eq_key_imp_eq_value)
    then have "e \<in> set (sort_key (timestamp_of self P) es)" using g1(2) by simp
    from remove_duplicates_complete[OF this, of self P "{}"]
    show "timestamp_of self P e \<in> timestamp_of self P ` set es'" unfolding es' by simp
  qed
qed

lemma validated_timeline:
  assumes "\<forall>e \<in> set es. validate_event self P now e"
  shows "\<exists>ts. map (event_time self P) es = map Inr ts \<and>
              map (timestamp_of self P) es = map Some ts"
  using assms
proof (induction es)
  case (Cons e es)
  then obtain ts where "map (event_time self P) es = map Inr ts"
    "map (timestamp_of self P) es = map Some ts" by auto
  moreover obtain t where "timestamp_of self P e = Some t" "event_time self P e = Inr t"
    using validate_event_fields[of self P now e] Cons.prems by auto
  ultimately have "map (event_time self P) (e # es) = map Inr (t # ts) \<and>
                   map (timestamp_of self P) (e # es) = map Some (t # ts)" by simp
  then show ?case by blast
qed simp

text \<open>
  C9. Grouping is idempotent: for every input list and every current time, feeding the
  concatenation of the per-service lists that \<open>sort_events_by_service\<close> returns back into
  \<open>sort_events_by_service\<close>, at the same or a later current time, returns the same
  mapping: the same service keys in the same order and, per service, the same list of
  records in the same order.
\<close>

theorem sort_events_by_service_idempotent:
  assumes "now \<le> now'"
  shows "sort_events_by_service self P now'
           (concat (map snd (sort_events_by_service self P now events)))
         = sort_events_by_service self P now events"
proof -
  let ?G = "sort_events_by_service self P now events"
  have wf: "\<forall>(k, es) \<in> set ?G. es \<noteq> [] \<and>
              (\<forall>e \<in> set es. validate_event self P now' e \<and> event_service e = k)"
    using sort_events_by_service_group(1,2)[of _ _ self P now events]
      validate_event_later[OF _ assms] by fastforce
  have "distinct (map fst ([] @ ?G))" using sort_events_by_service_keys by simp
  from group_events_regroup[OF this wf]
  have regroup: "group_events self P now' (concat (map snd ?G)) [] = ?G" by simp
  have "map (\<lambda>(service_name, es).
               (service_name,
                remove_duplicates self P (sort_key (timestamp_of self P) es) [] {})) ?G = ?G"
  proof (intro map_idI)
    fix g assume g: "g \<in> set ?G"
    obtain k es where kes: "g = (k, es)" by (cases g)
    have "sort_key (timestamp_of self P) es = es"
      using sort_events_by_service_group(3)[of k es] g kes by (intro sort_key_id_if_sorted) simp
    moreover have "remove_duplicates self P es [] {} = es"
      using sort_events_by_service_group(4)[of k es] g kes by (intro remove_duplicates_id) simp_all
    ultimately show "(case g of (service_name, es) \<Rightarrow>
               (service_name,
                remove_duplicates self P (sort_key (timestamp_of self P) es) [] {})) = g"
      using kes by simp
  qed
  then show ?thesis
    using regroup by (simp add: sort_events_by_service_def[of self P now' "concat (map snd ?G)"])
qed


theorem sort_events_by_service_idempotent_witness:
  "(1800000000000000 :: int) \<le> 1800000000000001 \<and>
   sort_events_by_service default_monitor sample_fromisoformat 1800000000000000
     [heartbeat ''email'' ''2025-08-04T10:01:00Z'', heartbeat '' email'' ''2025-08-04T10:00:00Z'',
      heartbeat ''api'' ''2025-08-04T10:00:00Z'', PNone,
      heartbeat ''email'' ''2025-08-04T10:00:00Z'']
     = [(''email'', [heartbeat '' email'' ''2025-08-04T10:00:00Z'',
                     heartbeat ''email'' ''2025-08-04T10:01:00Z'']),
        (''api'', [heartbeat ''api'' ''2025-08-04T10:00:00Z''])] \<and>
   sort_events_by_service default_monitor sample_fromisoformat 1800000000000001
     [heartbeat '' email'' ''2025-08-04T10:00:00Z'', heartbeat ''email'' ''2025-08-04T10:01:00Z'',
      heartbeat ''api'' ''2025-08-04T10:00:00Z'']
     = [(''email'', [heartbeat '' email'' ''2025-08-04T10:00:00Z'',
                     heartbeat ''email'' ''2025-08-04T10:01:00Z'']),
        (''api'', [heartbeat ''api'' ''2025-08-04T10:00:00Z''])]"
proof -
  have le: "(1800000000000000 :: int) \<le> 1800000000000001" by simp
  have first: "sort_events_by_service default_monitor sample_fromisoformat 1800000000000000
     [heartbeat ''email'' ''2025-08-04T10:01:00Z'', heartbeat '' email'' ''2025-08-04T10:00:00Z'',
      heartbeat ''api'' ''2025-08-04T10:00:00Z'', PNone,
      heartbeat ''email'' ''2025-08-04T10:00:00Z'']
     = [(''email'', [heartbeat '' email'' ''2025-08-04T10:00:00Z'',
                     heartbeat ''email'' ''2025-08-04T10:01:00Z'']),
        (''api'', [heartbeat ''api'' ''2025-08-04T10:00:00Z''])]"
    by code_simp
  show ?thesis
    using sort_events_by_service_idempotent[OF le, of default_monitor sample_fromisoformat
      "[heartbeat ''email'' ''2025-08-04T10:01:00Z'', heartbeat '' email'' ''2025-08-04T10:00:00Z'',
        heartbeat ''api'' ''2025-08-04T10:00:00Z'', PNone,
        heartbeat ''email'' ''2025-08-04T10:00:00Z'']"]
    unfolding first by simp
qed

subsection \<open>Alerts and the first event\<close>

text \<open>
  C4. For every input list, every valid configuration and every current time, and for
  every service of the grouping: the detector terminates on the service's timeline, and
  no alert instant that it returns is earlier than the instant \<open>t0\<close> of the first event of
  the timeline, which is the earliest instant among the validated events of that service.
  (Where it returns no list it has raised \<^verbatim>\<open>OverflowError\<close>, the expected clock having left
  the range of a datetime.)
\<close>

theorem alert_not_before_first_event:
  assumes "valid_config self"
    and "(name, evs) \<in> set (sort_events_by_service self P now events)"
  shows "\<exists>r t0 ts. detect_missed_heartbeats self P now evs = Some r \<and>
           event_time self P (hd evs) = Inr t0 \<and>
           map (event_time self P) evs = map Inr ts \<and>
           (\<forall>e \<in> set events. validate_event self P now e \<and> event_service e = name \<longrightarrow>
              (\<exists>t. event_time self P e = Inr t \<and> t0 \<le> t)) \<and>
           ((r = Inl OverflowError \<and> \<not> clock_in_range self ts now) \<or>
            (\<exists>al. r = Inr al \<and> (\<forall>a \<in> set al. t0 \<le> a)))"
proof -
  note g = sort_events_by_service_group[OF assms(2)]
  from g(2) have "\<forall>e \<in> set evs. validate_event self P now e" by blast
  from validated_timeline[OF this] obtain ts where
    ts: "map (event_time self P) evs = map Inr ts" "map (timestamp_of self P) evs = map Some ts"
    by blast
  have len: "length ts = length evs" using ts(1) by (metis length_map)
  have ne: "ts \<noteq> []" using g(1) len by auto
  have sorted: "sorted ts" using g(3) unfolding ts(2) by (simp add: sorted_map)
  have hd: "event_time self P (hd evs) = Inr (hd ts)"
    using event_time_nth[OF ts(1), of 0] g(1) ne by (simp add: hd_conv_nth)
  from detect_missed_heartbeats_inv[OF assms(1) ts(1), of now] obtain r where
    r: "detect_missed_heartbeats self P now evs = Some r"
    and c: "(r = Inl OverflowError \<and> \<not> clock_in_range self ts now) \<or>
            (\<exists>al. r = Inr al \<and> sorted_wrt (<) al
               \<and> (\<forall>a \<in> set al. ts ! 0 + timedelta_seconds (interval_seconds self) \<le> a))"
    by blast
  have i: "0 \<le> timedelta_seconds (interval_seconds self)"
    using assms(1) by (simp add: valid_config_def timedelta_seconds_def)
  have after: "(r = Inl OverflowError \<and> \<not> clock_in_range self ts now) \<or>
            (\<exists>al. r = Inr al \<and> (\<forall>a \<in> set al. hd ts \<le> a))"
    using c
  proof
    assume "r = Inl OverflowError \<and> \<not> clock_in_range self ts now"
    then show ?thesis by blast
  next
    assume "\<exists>al. r = Inr al \<and> sorted_wrt (<) al
               \<and> (\<forall>a \<in> set al. ts ! 0 + timedelta_seconds (interval_seconds self) \<le> a)"
    then obtain al where al: "r = Inr al"
      "\<forall>a \<in> set al. ts ! 0 + timedelta_seconds (interval_seconds self) \<le> a" by blast
    have "\<forall>a \<in> set al. hd ts \<le> a" using al(2) i ne by (auto simp add: hd_conv_nth)
    then show ?thesis using al(1) by blast
  qed
  have earliest: "\<exists>t. event_time self P e = Inr t \<and> hd ts \<le> t"
    if e: "e \<in> set events" "validate_event self P now e \<and> event_service e = name" for e
  proof -
    from validate_event_fields[of self P now e] e(2) obtain t where
      t: "timestamp_of self P e = Some t" "event_time self P e = Inr t" by blast
    have "timestamp_of self P e \<in> set (map (timestamp_of self P) evs)" using g(5) e by simp
    then have "t \<in> set ts" unfolding ts(2) t(1) by auto
    then have "hd ts \<le> t" using sorted ne by (cases ts) auto
    then show ?thesis using t(2) by blast
  qed
  show ?thesis
    using r hd ts(1) earliest after by blast
qed

theorem alert_not_before_first_event_witness:
  "valid_config default_monitor \<and>
   (''email'', [heartbeat ''email'' ''2025-08-04T10:00:00Z'',
                heartbeat ''email'' ''2025-08-04T10:02:00Z''])
     \<in> set (sort_events_by_service default_monitor sample_fromisoformat 1754302000000000
              [heartbeat ''email'' ''2025-08-04T10:02:00Z'',
               heartbeat ''email'' ''2025-08-04T10:00:00Z'']) \<and>
   detect_missed_heartbeats default_monitor sample_fromisoformat 1754302000000000
     [heartbeat ''email'' ''2025-08-04T10:00:00Z'', heartbeat ''email'' ''2025-08-04T10:02:00Z'']
     = Some (Inr [1754301900000000]) \<and>
   event_time default_monitor sample_fromisoformat
     (hd [heartbeat ''email'' ''2025-08-04T10:00:00Z'', heartbeat ''email'' ''2025-08-04T10:02:00Z''])
     = Inr 1754301600000000 \<and>
   (1754301600000000 :: int) \<le> 1754301900000000"
proof -
  let ?evs = "[heartbeat ''email'' ''2025-08-04T10:00:00Z'',
               heartbeat ''email'' ''2025-08-04T10:02:00Z'']"
  have g: "sort_events_by_service default_monitor sample_fromisoformat 1754302000000000
              [heartbeat ''email'' ''2025-08-04T10:02:00Z'',
               heartbeat ''email'' ''2025-08-04T10:00:00Z''] = [(''email'', ?evs)]"
    by code_simp
  have m: "(''email'', ?evs)
     \<in> set (sort_events_by_service default_monitor sample_fromisoformat 1754302000000000
              [heartbeat ''email'' ''2025-08-04T10:02:00Z'',
               heartbeat ''email'' ''2025-08-04T10:00:00Z''])"
    unfolding g by simp
  have d: "detect_missed_heartbeats default_monitor sample_fromisoformat 1754302000000000 ?evs
             = Some (Inr [1754301900000000])"
    by code_simp
  from alert_not_before_first_event[OF valid_default_monitor m] obtain r t0 where
    r: "detect_missed_heartbeats default_monitor sample_fromisoformat 1754302000000000 ?evs
          = Some r"
       "event_time default_monitor sample_fromisoformat (hd ?evs) = Inr t0"
       "r = Inl OverflowError \<or> (\<exists>al. r = Inr al \<and> (\<forall>a \<in> set al. t0 \<le> a))"
    by blast
  have "t0 = 1754301600000000" using r(2) by (simp add: sample_event_time)
  moreover have "r = Inr [1754301900000000]" using r(1) d by simp
  ultimately have "(1754301600000000 :: int) \<le> 1754301900000000" using r(3) by auto
  then show ?thesis using valid_default_monitor m d by (simp add: sample_event_time)
qed

subsection \<open>The aggregate output\<close>





end
